theory Spec2Isabelle
  imports Main "HOL-Library.Signed_Division"
begin

section \<open>Terminal trivia game: data model\<close>

text \<open>
  The C sources are embedded function by function; a loop or a block of a function
  that carries a claim has a definition of its own, named at its place. A C \<open>int\<close> is
  modelled as \<open>int\<close>: C's division and remainder truncate towards zero and are written
  \<open>sdiv\<close> and \<open>smod\<close>; the score of an answer is shown to stay within 32 bits; the
  counters and scores of a session are sums of small numbers and are not wrapped; where
  the library clamps or converts a number (\<open>strtol\<close>, \<open>atoi\<close>) the model does so too.
  Memory allocation is taken to succeed, and pointers handed to a function are not null.
\<close>

subsection \<open>questions.h\<close>

definition MAX_QUESTION_LEN :: nat where "MAX_QUESTION_LEN = 512"
definition MAX_ANSWER_LEN :: nat where "MAX_ANSWER_LEN = 256"
definition MAX_OPTIONS :: nat where "MAX_OPTIONS = 4"

datatype Difficulty = DIFFICULTY_EASY | DIFFICULTY_MEDIUM | DIFFICULTY_HARD

datatype Category = CATEGORY_GENERAL | CATEGORY_SCIENCE | CATEGORY_HISTORY
  | CATEGORY_SPORTS | CATEGORY_ENTERTAINMENT

text \<open>The numeric value of an enumerator, as the difficulty filter of the game compares it.\<close>

fun difficulty_code :: "Difficulty \<Rightarrow> int" where
  "difficulty_code DIFFICULTY_EASY = 0"
| "difficulty_code DIFFICULTY_MEDIUM = 1"
| "difficulty_code DIFFICULTY_HARD = 2"

definition DIFFICULTY_COUNT :: int where "DIFFICULTY_COUNT = 3"

text \<open>
  \<open>q_options\<close> holds the option strings the record carries, in order; the C array has
  \<open>MAX_OPTIONS\<close> slots, and slots that were never written are not part of the model.
\<close>

record Question =
  q_question :: string
  q_options :: "string list"
  q_correct_answer :: int
  q_difficulty :: Difficulty
  q_category :: Category

subsection \<open>game.c: the score of one answer\<close>

text \<open>
  \<open>game_calculate_score\<close>: the \<open>default\<close> branch of the switch is unreachable for the
  three enumerators and so has no equation here.
\<close>

fun base_points :: "Difficulty \<Rightarrow> int" where
  "base_points DIFFICULTY_EASY = 10"
| "base_points DIFFICULTY_MEDIUM = 20"
| "base_points DIFFICULTY_HARD = 30"

definition game_calculate_score :: "bool \<Rightarrow> int \<Rightarrow> Difficulty \<Rightarrow> int" where
  "game_calculate_score correct time_remaining difficulty =
     (if \<not> correct then 0
      else let time_bonus = time_remaining sdiv 2
           in base_points difficulty + time_bonus)"

definition INT_MIN :: int where "INT_MIN = - (2 ^ 31)"
definition INT_MAX :: int where "INT_MAX = 2 ^ 31 - 1"

subsection \<open>C strings and the library calls the sources make\<close>

text \<open>
  A \<open>char\<close> buffer is a \<open>string\<close>; read as a C string it ends at its first NUL byte.
  A pointer into a string is the suffix that starts there, so \<open>strchr\<close> and \<open>strstr\<close>
  return \<open>Some\<close> suffix, or \<open>None\<close> for \<open>NULL\<close>. \<open>isspace\<close> and \<open>isdigit\<close> are those
  of the C locale. \<open>long\<close> has 64 bits and \<open>int\<close> 32.
\<close>

definition c_str :: "string \<Rightarrow> string" where
  "c_str buf = takeWhile (\<lambda>c. c \<noteq> CHR 0x00) buf"

definition dquote :: char where
  "dquote = CHR 0x22"

definition isspace :: "char \<Rightarrow> bool" where
  "isspace c = (c = CHR 0x20 \<or> c = CHR 0x09 \<or> c = CHR 0x0A \<or> c = CHR 0x0B
     \<or> c = CHR 0x0C \<or> c = CHR 0x0D)"

definition isdigit :: "char \<Rightarrow> bool" where
  "isdigit c = (48 \<le> (of_char c :: nat) \<and> (of_char c :: nat) \<le> 57)"

fun strchr :: "string \<Rightarrow> char \<Rightarrow> string option" where
  "strchr [] c = None"
| "strchr (x # xs) c = (if x = c then Some (x # xs) else strchr xs c)"

fun strstr :: "string \<Rightarrow> string \<Rightarrow> string option" where
  "strstr [] needle = (if needle = [] then Some [] else None)"
| "strstr (x # xs) needle =
     (if take (length needle) (x # xs) = needle then Some (x # xs) else strstr xs needle)"

text \<open>\<open>strncmp(s, lit, n) == 0\<close> for a literal \<open>lit\<close> of exactly \<open>n\<close> characters.\<close>

definition strncmp_eq :: "string \<Rightarrow> string \<Rightarrow> nat \<Rightarrow> bool" where
  "strncmp_eq s lit n = (take n s = take n lit)"

definition LONG_MIN :: int where "LONG_MIN = - (2 ^ 63)"
definition LONG_MAX :: int where "LONG_MAX = 2 ^ 63 - 1"

fun digits_value :: "int \<Rightarrow> string \<Rightarrow> int" where
  "digits_value acc [] = acc"
| "digits_value acc (c # cs) = digits_value (acc * 10 + (int (of_char c) - 48)) cs"

text \<open>
  \<open>strtol(str, &endptr, 10)\<close>: the value and the suffix \<open>endptr\<close> points to. Leading
  white space and one sign are skipped; with no digit nothing is consumed; a value out
  of the range of \<open>long\<close> is clamped.
\<close>

definition strtol :: "string \<Rightarrow> int \<times> string" where
  "strtol str =
     (let s1 = dropWhile isspace str;
          neg = (s1 \<noteq> [] \<and> hd s1 = CHR ''-'');
          s2 = (if s1 \<noteq> [] \<and> (hd s1 = CHR ''-'' \<or> hd s1 = CHR ''+'') then tl s1 else s1);
          ds = takeWhile isdigit s2
      in if ds = [] then (0, str)
         else (let v = digits_value 0 ds;
                   n = (if neg then - v else v)
               in (max LONG_MIN (min LONG_MAX n), dropWhile isdigit s2)))"

text \<open>The conversion of a \<open>long\<close> to \<open>int\<close> keeps the low 32 bits.\<close>

definition int_of_long :: "int \<Rightarrow> int" where
  "int_of_long n = (n + 2 ^ 31) mod 2 ^ 32 - 2 ^ 31"

text \<open>\<open>atoi(s)\<close> is \<open>(int) strtol(s, NULL, 10)\<close>, as in the GNU C library.\<close>

definition atoi :: "string \<Rightarrow> int" where
  "atoi s = int_of_long (fst (strtol s))"

fun upto_newline :: "string \<Rightarrow> string" where
  "upto_newline [] = []"
| "upto_newline (c # cs) = (if c = CHR 0x0A then [c] else c # upto_newline cs)"

text \<open>
  \<open>fgets(buffer, size, stdin)\<close> on the bytes waiting on standard input: \<open>None\<close> (NULL)
  at end of file, else the bytes up to and with the first newline, at most \<open>size - 1\<close>
  of them (\<open>sz\<close> is the parameter \<open>size\<close>).
\<close>

definition fgets :: "nat \<Rightarrow> string \<Rightarrow> string option" where
  "fgets sz pending =
     (if pending = [] then None else Some (take (sz - 1) (upto_newline pending)))"

subsection \<open>utils.h, utils.c\<close>

definition MAX_INPUT_LEN :: nat where "MAX_INPUT_LEN = 256"

datatype UtilsError = UTILS_SUCCESS | UTILS_ERROR_NULL_POINTER | UTILS_ERROR_INVALID_INPUT
  | UTILS_ERROR_BUFFER_OVERFLOW | UTILS_ERROR_IO_FAILED

text \<open>
  \<open>read_input\<close>: \<open>Inr\<close> the buffer on \<open>UTILS_SUCCESS\<close>, \<open>Inl\<close> the error code otherwise.
  The second argument is what waits on standard input.
\<close>

definition read_input :: "nat \<Rightarrow> string \<Rightarrow> UtilsError + string" where
  "read_input sz pending =
     (if sz = 0 then Inl UTILS_ERROR_INVALID_INPUT
      else case fgets sz pending of
        None \<Rightarrow> Inl UTILS_ERROR_IO_FAILED
      | Some got \<Rightarrow>
          (let buffer = c_str got;
               len = length buffer
           in if len > 0 \<and> buffer ! (len - 1) = CHR 0x0A then Inr (take (len - 1) buffer)
              else Inr buffer))"

definition sanitize_input :: "string \<Rightarrow> string" where
  "sanitize_input str = rev (dropWhile isspace (rev (dropWhile isspace str)))"

text \<open>\<open>is_valid_integer\<close>: \<open>Some\<close> the value stored through \<open>value\<close> when it returns 1.\<close>

definition is_valid_integer :: "string \<Rightarrow> int option" where
  "is_valid_integer str =
     (if length str = 0 then None
      else (let (num, endptr) = strtol str
            in if endptr \<noteq> [] \<or> num < INT_MIN \<or> num > INT_MAX then None
               else Some num))"

subsection \<open>questions.c\<close>

text \<open>
  The loop that collects the options. The first argument counts the iterations left,
  \<open>MAX_OPTIONS - opt_idx\<close>; the result lists the options stored, so its length is the
  final \<open>opt_idx\<close>.
\<close>

fun parse_options :: "nat \<Rightarrow> string \<Rightarrow> string list" where
  "parse_options 0 opt_start = []"
| "parse_options (Suc n) opt_start =
     (case strchr opt_start dquote of
        None \<Rightarrow> []
      | Some b \<Rightarrow>
          (case strchr (tl b) dquote of
             None \<Rightarrow> []
           | Some opt_end \<Rightarrow>
               take (MAX_ANSWER_LEN - 1) (takeWhile (\<lambda>c. c \<noteq> dquote) (tl b))
               # (if tl opt_end \<noteq> [] \<and> hd (tl opt_end) = CHR '']'' then []
                  else parse_options n (tl opt_end))))"

definition parse_difficulty :: "string \<Rightarrow> Difficulty" where
  "parse_difficulty line =
     (case strstr line (dquote # ''difficulty'' @ [dquote]) of
        None \<Rightarrow> DIFFICULTY_EASY
      | Some d1 \<Rightarrow>
          (case strchr d1 CHR '':'' of
             None \<Rightarrow> DIFFICULTY_EASY
           | Some d2 \<Rightarrow>
               (case strchr d2 dquote of
                  None \<Rightarrow> DIFFICULTY_EASY
                | Some d3 \<Rightarrow>
                    (let diff_start = tl d3
                     in if strncmp_eq diff_start ''easy'' 4 then DIFFICULTY_EASY
                        else if strncmp_eq diff_start ''medium'' 6 then DIFFICULTY_MEDIUM
                        else if strncmp_eq diff_start ''hard'' 4 then DIFFICULTY_HARD
                        else DIFFICULTY_EASY))))"

text \<open>\<open>parse_json_question\<close>: \<open>Some\<close> the question filled in when it returns 0, \<open>None\<close> for -1.\<close>

definition parse_json_question :: "string \<Rightarrow> Question option" where
  "parse_json_question json_line =
     (let line = take 1023 (c_str json_line)
      in case strstr line (dquote # ''question'' @ [dquote]) of
        None \<Rightarrow> None
      | Some q1 \<Rightarrow>
      (case strchr q1 CHR '':'' of
        None \<Rightarrow> None
      | Some q2 \<Rightarrow>
      (case strchr q2 dquote of
        None \<Rightarrow> None
      | Some q3 \<Rightarrow>
      (case strchr (tl q3) dquote of
        None \<Rightarrow> None
      | Some q_end \<Rightarrow>
      (case strstr line (dquote # ''options'' @ [dquote]) of
        None \<Rightarrow> None
      | Some o1 \<Rightarrow>
      (case strchr o1 CHR ''['' of
        None \<Rightarrow> None
      | Some o2 \<Rightarrow>
      (case strstr line (dquote # ''correct'' @ [dquote]) of
        None \<Rightarrow> None
      | Some c1 \<Rightarrow>
      (case strchr c1 CHR '':'' of
        None \<Rightarrow> None
      | Some c2 \<Rightarrow>
          (let question = take (MAX_QUESTION_LEN - 1) (takeWhile (\<lambda>c. c \<noteq> dquote) (tl q3));
               options = parse_options MAX_OPTIONS (tl o2);
               opt_idx = int (length options);
               correct_answer = atoi (dropWhile isspace (tl c2))
           in if correct_answer < 0 \<or> correct_answer \<ge> opt_idx then None
              else Some \<lparr>q_question = question, q_options = options,
                         q_correct_answer = correct_answer,
                         q_difficulty = parse_difficulty line,
                         q_category = CATEGORY_GENERAL\<rparr>)))))))))"

text \<open>
  The bank is the list of its questions (\<open>count\<close> is its length); growing the array is
  assumed to succeed, so \<open>question_bank_add\<close> always returns 0.
\<close>

type_synonym QuestionBank = "Question list"

definition question_bank_add :: "QuestionBank \<Rightarrow> Question \<Rightarrow> QuestionBank" where
  "question_bank_add bank question = bank @ [question]"

text \<open>
  The character loop of \<open>question_bank_load_from_json\<close>. \<open>buffer\<close> holds the
  \<open>buffer_pos\<close> characters collected so far (the array has 8192 slots).
\<close>

fun load_chars :: "string \<Rightarrow> string \<Rightarrow> int \<Rightarrow> bool \<Rightarrow> int \<Rightarrow> QuestionBank
    \<Rightarrow> int \<times> QuestionBank" where
  "load_chars [] buffer loaded in_object brace_count bank = (loaded, bank)"
| "load_chars (c # cs) buffer loaded in_object brace_count bank =
     (if length buffer \<ge> 8192 - 1 then load_chars cs [] loaded False 0 bank
      else if c = CHR ''{'' then
        (if \<not> in_object then load_chars cs [CHR ''{''] loaded True 1 bank
         else load_chars cs (buffer @ [c]) loaded in_object (brace_count + 1) bank)
      else if c = CHR ''}'' then
        (if in_object \<and> brace_count - 1 = 0 then
           (case parse_json_question (buffer @ [c]) of
              Some q \<Rightarrow> load_chars cs [] (loaded + 1) False 0 (question_bank_add bank q)
            | None \<Rightarrow> load_chars cs [] loaded False 0 bank)
         else load_chars cs (buffer @ [c]) loaded in_object (brace_count - 1) bank)
      else load_chars cs (buffer @ [c]) loaded in_object brace_count bank)"

text \<open>
  \<open>question_bank_load_from_json\<close>: the file is its content, or \<open>None\<close> when it cannot be
  opened. The result is the return value and the bank afterwards.
\<close>

definition question_bank_load_from_json :: "QuestionBank \<Rightarrow> string option
    \<Rightarrow> int \<times> QuestionBank" where
  "question_bank_load_from_json bank file =
     (case file of
        None \<Rightarrow> (- 1, bank)
      | Some content \<Rightarrow> load_chars content [] 0 False 0 bank)"

text \<open>
  \<open>question_bank_get_random\<close>; \<open>rnd\<close> is the value \<open>rand()\<close> returns. \<open>None\<close> is \<open>NULL\<close>.
\<close>

definition question_bank_get_random :: "QuestionBank \<Rightarrow> int \<Rightarrow> nat \<Rightarrow> Question option" where
  "question_bank_get_random bank difficulty rnd =
     (if length bank = 0 then None
      else if difficulty \<ge> 0 \<and> difficulty < DIFFICULTY_COUNT then
        (let valid_indices =
               filter (\<lambda>i. difficulty_code (q_difficulty (bank ! i)) = difficulty)
                 [0..<length bank]
         in if length valid_indices = 0 then None
            else Some (bank ! (valid_indices ! (rnd mod length valid_indices))))
      else Some (bank ! (rnd mod length bank)))"

subsection \<open>timer.h, timer.c\<close>

text \<open>
  The countdown runs in a thread of its own, which \<open>timer_start\<close> creates. A thread is
  followed by its control point: created and not yet at its first critical section,
  about to test the loop condition \<open>remaining > 0\<close>, inside \<open>sleep(1)\<close>, or ended. Every
  critical section of a thread is one step, and so is its test of the loop condition,
  which reads \<open>remaining\<close> outside the lock; the threads interleave between steps, and
  the unlocked reads are taken as atomic. Creating a thread is taken to succeed.

  The field \<open>thread\<close> is the handle of the thread created last, kept here as that
  thread's control point. \<open>timer_start\<close> overwrites the handle without looking at it,
  so a thread that is still alive then goes on without a handle: the control points of
  these threads are kept in \<open>orphans\<close>. A call that joins waits for the thread of the
  handle, which takes its steps to the end within the call; a thread without handle,
  which the game never has, steps before or after the call.
\<close>

datatype thread_pc = NoThread | Created | AtLoop | Sleeping

record Timer =
  seconds :: int
  remaining :: int
  running :: bool
  expired :: bool
  thread :: thread_pc
  orphans :: "thread_pc list"

text \<open>\<open>timer_init\<close>: \<open>Some\<close> the initialised timer when it returns 0, \<open>None\<close> for -1.\<close>

definition timer_init :: "int \<Rightarrow> Timer option" where
  "timer_init secs =
     (if secs \<le> 0 then None
      else Some \<lparr>seconds = secs, remaining = secs, running = False, expired = False,
                 thread = NoThread, orphans = []\<rparr>)"

text \<open>The end of \<open>timer_thread_func\<close>, after the countdown loop.\<close>

definition thread_exit :: "Timer \<Rightarrow> Timer" where
  "thread_exit t =
     (let t1 = (if remaining t = 0 then t\<lparr>expired := True\<rparr> else t)
      in t1\<lparr>running := False\<rparr>)"

text \<open>
  One step of a thread that runs \<open>timer_thread_func\<close>, from the given control point:
  the first critical section, the loop test, or the body after \<open>sleep(1)\<close>. The result
  is the thread's next control point and the timer.
\<close>

fun timer_thread_func :: "thread_pc \<Rightarrow> Timer \<Rightarrow> thread_pc \<times> Timer" where
  "timer_thread_func NoThread t = (NoThread, t)"
| "timer_thread_func Created t =
     (AtLoop, t\<lparr>running := True, expired := False, remaining := seconds t\<rparr>)"
| "timer_thread_func AtLoop t =
     (if remaining t > 0 then (Sleeping, t) else (NoThread, thread_exit t))"
| "timer_thread_func Sleeping t =
     (if \<not> running t then (NoThread, thread_exit t)
      else (AtLoop, t\<lparr>remaining := remaining t - 1\<rparr>))"

text \<open>A step of the thread of the handle, and a step of the \<open>i\<close>-th thread without handle.\<close>

definition thread_step :: "Timer \<Rightarrow> Timer" where
  "thread_step t = (case timer_thread_func (thread t) t of (pc, t1) \<Rightarrow> t1\<lparr>thread := pc\<rparr>)"

definition orphan_step :: "nat \<Rightarrow> Timer \<Rightarrow> Timer" where
  "orphan_step i t =
     (if i < length (orphans t)
      then case timer_thread_func (orphans t ! i) t of
             (pc, t1) \<Rightarrow> t1\<lparr>orphans := (orphans t)[i := pc]\<rparr>
      else t)"

text \<open>\<open>pthread_join\<close>: the thread of the handle takes its steps until it has ended.\<close>

function thread_run :: "Timer \<Rightarrow> Timer" where
  "thread_run t = (if thread t = NoThread then t else thread_run (thread_step t))"
  by pat_completeness auto
termination
  by (relation "measure (\<lambda>t. case thread t of
        NoThread \<Rightarrow> 0
      | Created \<Rightarrow> (if seconds t > 0 then 2 * nat (seconds t) + 2 else 2)
      | AtLoop \<Rightarrow> (if remaining t > 0 then 2 * nat (remaining t) + 1 else 1)
      | Sleeping \<Rightarrow> (if remaining t > 0 then 2 * nat (remaining t) else 2))")
    (auto simp: thread_step_def thread_exit_def Let_def split: thread_pc.splits)

declare thread_run.simps [simp del]

text \<open>
  \<open>timer_start\<close>: the return value and the timer. The call tests \<open>running\<close> and creates
  the thread; it is the new thread, in its first step, that sets \<open>running\<close>. Until then
  \<open>running\<close> is still false.
\<close>

definition timer_start :: "Timer \<Rightarrow> int \<times> Timer" where
  "timer_start t =
     (if running t then (- 1, t)
      else (0, t\<lparr>thread := Created,
                 orphans := (if thread t = NoThread then orphans t
                             else thread t # orphans t)\<rparr>))"

definition timer_stop :: "Timer \<Rightarrow> Timer" where
  "timer_stop t = thread_run (t\<lparr>running := False\<rparr>)"

definition timer_get_remaining :: "Timer \<Rightarrow> int" where
  "timer_get_remaining t = remaining t"

definition timer_is_expired :: "Timer \<Rightarrow> bool" where
  "timer_is_expired t = expired t"

definition timer_reset :: "Timer \<Rightarrow> int \<Rightarrow> int \<times> Timer" where
  "timer_reset t secs =
     (if secs \<le> 0 then (- 1, t)
      else (let t1 = (if running t then timer_stop t else t)
            in (0, t1\<lparr>seconds := secs, remaining := secs, expired := False\<rparr>)))"

text \<open>The countdown as a state machine: the calls of the interface and the threads' steps.\<close>

datatype timer_op = TimerStart | ThreadStep | OrphanStep nat | TimerStop | TimerReset int

fun timer_apply :: "timer_op \<Rightarrow> Timer \<Rightarrow> Timer" where
  "timer_apply TimerStart t = snd (timer_start t)"
| "timer_apply ThreadStep t = thread_step t"
| "timer_apply (OrphanStep i) t = orphan_step i t"
| "timer_apply TimerStop t = timer_stop t"
| "timer_apply (TimerReset secs) t = snd (timer_reset t secs)"

definition timer_run :: "timer_op list \<Rightarrow> Timer \<Rightarrow> Timer" where
  "timer_run ops t = fold timer_apply ops t"

text \<open>
  The use \<open>game_ask_question\<close> makes of the timer, the only one in the program: for
  every question it calls \<open>timer_reset\<close> with the time per question, which \<open>game_init\<close>
  has checked to be positive, then \<open>timer_start\<close>, and then polls; it leaves the polling
  loop through \<open>timer_stop\<close>, or without a call once it has read \<open>remaining \<le> 0\<close>. The
  caller is idle before the first question and after \<open>timer_stop\<close>, armed between
  \<open>timer_reset\<close> and \<open>timer_start\<close>, and polling from \<open>timer_start\<close> on.
  \<open>caller_step\<close> is the caller's place after a step, \<open>None\<close> for a call the game does not
  make at that place; the threads may step at any time.
\<close>

datatype caller = Idle | Armed | Polling

fun caller_step :: "caller \<Rightarrow> Timer \<Rightarrow> timer_op \<Rightarrow> caller option" where
  "caller_step c t ThreadStep = Some c"
| "caller_step c t (OrphanStep i) = Some c"
| "caller_step Idle t (TimerReset secs) = (if 0 < secs then Some Armed else None)"
| "caller_step Polling t (TimerReset secs) =
     (if remaining t \<le> 0 \<and> 0 < secs then Some Armed else None)"
| "caller_step Armed t (TimerReset secs) = None"
| "caller_step Armed t TimerStart = Some Polling"
| "caller_step Idle t TimerStart = None"
| "caller_step Polling t TimerStart = None"
| "caller_step Polling t TimerStop = Some Idle"
| "caller_step Idle t TimerStop = None"
| "caller_step Armed t TimerStop = None"

fun caller_run :: "caller \<Rightarrow> Timer \<Rightarrow> timer_op list \<Rightarrow> caller option" where
  "caller_run c t [] = Some c"
| "caller_run c t (op # ops) =
     (case caller_step c t op of
        None \<Rightarrow> None
      | Some c1 \<Rightarrow> caller_run c1 (timer_apply op t) ops)"

text \<open>
  What holds of the timer between any two steps of such a use: the duration is
  positive, \<open>remaining\<close> lies between 0 and the duration and is positive while the
  thread sleeps, no thread is without handle, a thread that has not yet taken its first
  step finds the timer as the reset left it, \<open>running\<close> is set only while the thread is
  in its loop, and an expired timer has counted down to 0 and its thread has ended.
\<close>

definition timer_inv :: "Timer \<Rightarrow> bool" where
  "timer_inv t =
     (0 < seconds t \<and> 0 \<le> remaining t \<and> remaining t \<le> seconds t
      \<and> orphans t = []
      \<and> (thread t = Sleeping \<longrightarrow> 0 < remaining t)
      \<and> (thread t = Created \<longrightarrow> remaining t = seconds t \<and> \<not> expired t)
      \<and> (running t \<longrightarrow> thread t = AtLoop \<or> thread t = Sleeping)
      \<and> (expired t \<longrightarrow> remaining t = 0 \<and> thread t = NoThread))"

text \<open>
  What holds in addition between the steps at each place of the caller, where no call
  is waiting for the thread to end: \<open>running\<close> is set while the thread is in its loop;
  the idle caller has no thread; the armed caller has none either and finds the timer
  reset; the thread of the polling caller is alive until it has counted down to 0.
\<close>

fun caller_inv :: "caller \<Rightarrow> Timer \<Rightarrow> bool" where
  "caller_inv Idle t = (timer_inv t \<and> thread t = NoThread)"
| "caller_inv Armed t =
     (timer_inv t \<and> thread t = NoThread \<and> remaining t = seconds t \<and> \<not> expired t)"
| "caller_inv Polling t =
     (timer_inv t \<and> (thread t = AtLoop \<or> thread t = Sleeping \<longrightarrow> running t)
      \<and> (thread t = NoThread \<longrightarrow> remaining t = 0))"

subsection \<open>game.h\<close>

text \<open>
  \<open>difficulty\<close> of the configuration is the enumerator's number, or -1 for any
  difficulty. The fields of \<open>Player\<close> carry the prefix \<open>p_\<close>, those of \<open>Question\<close> the
  prefix \<open>q_\<close>. A player is referred to by the index into \<open>players\<close>.
\<close>

record GameConfig =
  questions_per_game :: int
  time_per_question :: int
  difficulty :: int
  use_timer :: bool
  num_players :: int

record Player =
  p_name :: string
  p_score :: int
  p_correct_answers :: int
  p_wrong_answers :: int
  p_timeouts :: int

record GameStats =
  total_questions :: int
  correct_answers :: int
  wrong_answers :: int
  timeouts :: int
  score :: int

record GameState =
  question_bank :: QuestionBank
  config :: GameConfig
  stats :: GameStats
  players :: "Player list"
  current_player :: int
  timer :: Timer
  game_active :: bool

subsection \<open>What the game prints and what it reads\<close>

text \<open>
  The output is the list of the messages printed, without their layout; the running
  display of the time left, the player's name above a question and the accuracy in the
  final report are left out.
\<close>

datatype winner_line = Winner nat int | Tie

datatype report = MultiplayerReport "Player list" winner_line | SinglePlayerReport GameStats

datatype printed = OutWelcome | OutQuestion Question | OutInvalidInput | OutTimeUp | OutQuit
  | OutNoQuestions | OutTimeout | OutCorrect int | OutWrong | OutScores "int list"
  | OutContinue | OutReport report

text \<open>
  What happens around the polling loop of one question: \<open>Tick\<close> is a step of the
  countdown thread, the one created for the question; \<open>OrphanTick i\<close> is a step of the
  \<open>i\<close>-th thread left over without handle, if there is one; \<open>Poll sel\<close> is one
  iteration of the loop, where \<open>select\<close> found nothing to read within its 0.1 seconds
  (\<open>None\<close>) or found the given bytes waiting on standard input (no bytes: end of file).
\<close>

datatype event = Tick | OrphanTick nat | Poll "string option"

text \<open>
  The surroundings of one round: the value \<open>rand()\<close> returns, the events of the polling
  loop, and the bytes waiting on standard input for the read of a game without timer.
\<close>

record round_env =
  rand_value :: nat
  events :: "event list"
  stdin_pending :: string

subsection \<open>game.c\<close>

definition new_player :: Player where
  "new_player = \<lparr>p_name = [], p_score = 0, p_correct_answers = 0, p_wrong_answers = 0,
     p_timeouts = 0\<rparr>"

text \<open>\<open>game_init_players\<close>: \<open>Some\<close> the state when it returns 0.\<close>

definition game_init_players :: "GameState \<Rightarrow> GameState option" where
  "game_init_players state =
     (if num_players (config state) < 2 then None
      else Some (state\<lparr>players := replicate (nat (num_players (config state))) new_player\<rparr>))"

text \<open>
  \<open>game_init\<close>: \<open>Some\<close> the state when it returns 0. Without timer the field \<open>timer\<close>
  is never written by the C code; it is the idle timer below.
\<close>

definition idle_timer :: Timer where
  "idle_timer = \<lparr>seconds = 0, remaining = 0, running = False, expired = False,
     thread = NoThread, orphans = []\<rparr>"

definition game_init :: "QuestionBank \<Rightarrow> GameConfig \<Rightarrow> GameState option" where
  "game_init bank cfg =
     (let state = \<lparr>question_bank = bank, config = cfg,
                   stats = \<lparr>total_questions = 0, correct_answers = 0, wrong_answers = 0,
                            timeouts = 0, score = 0\<rparr>,
                   players = [], current_player = 0, timer = idle_timer,
                   game_active = False\<rparr>
      in case (if num_players cfg > 1 then game_init_players state else Some state) of
           None \<Rightarrow> None
         | Some state1 \<Rightarrow>
             (if use_timer cfg then
                (case timer_init (time_per_question cfg) of
                   None \<Rightarrow> None
                 | Some t \<Rightarrow> Some (state1\<lparr>timer := t\<rparr>))
              else Some state1))"

definition game_get_current_player :: "GameState \<Rightarrow> nat option" where
  "game_get_current_player state =
     (if num_players (config state) \<le> 1 then None
      else if current_player state \<ge> 0 \<and> current_player state < num_players (config state)
        then Some (nat (current_player state))
      else None)"

definition game_next_player :: "GameState \<Rightarrow> GameState" where
  "game_next_player state =
     (if num_players (config state) \<le> 1 then state
      else state\<lparr>current_player :=
             (current_player state + 1) smod num_players (config state)\<rparr>)"


text \<open>The choice a line stands for, if it is an integer from 1 to \<open>MAX_OPTIONS\<close>.\<close>

definition answer_of :: "string \<Rightarrow> int option" where
  "answer_of input =
     (case is_valid_integer input of
        None \<Rightarrow> None
      | Some answer \<Rightarrow>
          (if answer \<ge> 1 \<and> answer \<le> int MAX_OPTIONS then Some answer else None))"

definition is_quit :: "string \<Rightarrow> bool" where
  "is_quit input = (input \<noteq> [] \<and> (hd input = CHR ''q'' \<or> hd input = CHR ''Q''))"

definition with_output :: "printed \<Rightarrow> int \<times> Timer \<times> printed list \<Rightarrow> int \<times> Timer \<times> printed list"
  where "with_output x r = (case r of (answer, t, out) \<Rightarrow> (answer, t, x # out))"

text \<open>
  The polling loop of \<open>game_ask_question\<close>: the value returned, the timer and the output.
  When no event is left, nothing more arrives on standard input and the countdown
  thread runs to its end, which ends the loop with 0.
\<close>

fun poll_input :: "Timer \<Rightarrow> event list \<Rightarrow> int \<times> Timer \<times> printed list" where
  "poll_input t [] = (0, thread_run t, [])"
| "poll_input t (Tick # es) = poll_input (thread_step t) es"
| "poll_input t (OrphanTick i # es) = poll_input (orphan_step i t) es"
| "poll_input t (Poll sel # es) =
     (if \<not> timer_get_remaining t > 0 then (0, t, [])
      else if timer_is_expired t then (0, timer_stop t, [OutTimeUp])
      else case sel of
        None \<Rightarrow> poll_input t es
      | Some pending \<Rightarrow>
          (case read_input MAX_INPUT_LEN pending of
             Inl err \<Rightarrow> poll_input t es
           | Inr line \<Rightarrow>
               (let input = sanitize_input line
                in if is_quit input then (- 1, timer_stop t, [])
                   else case answer_of input of
                     Some answer \<Rightarrow> (answer, timer_stop t, [])
                   | None \<Rightarrow> with_output OutInvalidInput (poll_input t es))))"

text \<open>The single read of a game without timer.\<close>

definition read_answer :: "string \<Rightarrow> int" where
  "read_answer pending =
     (case read_input MAX_INPUT_LEN pending of
        Inl err \<Rightarrow> 0
      | Inr line \<Rightarrow>
          (let input = sanitize_input line
           in if is_quit input then - 1
              else case answer_of input of Some answer \<Rightarrow> answer | None \<Rightarrow> 0))"

definition game_ask_question :: "GameState \<Rightarrow> Question \<Rightarrow> round_env
    \<Rightarrow> int \<times> GameState \<times> printed list" where
  "game_ask_question state question env =
     (if use_timer (config state) then
        (let t1 = snd (timer_reset (timer state) (time_per_question (config state)));
             t2 = snd (timer_start t1)
         in case poll_input t2 (events env) of
              (answer, t3, out) \<Rightarrow> (answer, state\<lparr>timer := t3\<rparr>, OutQuestion question # out))
      else (read_answer (stdin_pending env), state, [OutQuestion question]))"

text \<open>The part of the round in \<open>game_run\<close> that books the answer.\<close>

definition update_stats :: "GameState \<Rightarrow> Question \<Rightarrow> int \<Rightarrow> GameState \<times> printed list" where
  "update_stats state question user_answer =
     (let correct = (user_answer = q_correct_answer question + 1);
          time_remaining = (if use_timer (config state) then timer_get_remaining (timer state)
                            else time_per_question (config state));
          points = game_calculate_score True time_remaining (q_difficulty question)
      in if num_players (config state) > 1 then
           (case game_get_current_player state of
              None \<Rightarrow> (state, [])
            | Some i \<Rightarrow>
                (let player = players state ! i
                 in if user_answer = 0 then
                      (state\<lparr>players := (players state)
                         [i := player\<lparr>p_timeouts := p_timeouts player + 1\<rparr>]\<rparr>, [OutTimeout])
                    else if correct then
                      (state\<lparr>players := (players state)
                         [i := player\<lparr>p_correct_answers := p_correct_answers player + 1,
                                      p_score := p_score player + points\<rparr>]\<rparr>,
                       [OutCorrect points])
                    else
                      (state\<lparr>players := (players state)
                         [i := player\<lparr>p_wrong_answers := p_wrong_answers player + 1\<rparr>]\<rparr>,
                       [OutWrong])))
         else
           (let st = (stats state)\<lparr>total_questions := total_questions (stats state) + 1\<rparr>
            in if user_answer = 0 then
                 (state\<lparr>stats := st\<lparr>timeouts := timeouts st + 1\<rparr>\<rparr>, [OutTimeout])
               else if correct then
                 (state\<lparr>stats := st\<lparr>correct_answers := correct_answers st + 1,
                                      score := score st + points\<rparr>\<rparr>, [OutCorrect points])
               else
                 (state\<lparr>stats := st\<lparr>wrong_answers := wrong_answers st + 1\<rparr>\<rparr>, [OutWrong])))"

text \<open>
  The game loop of \<open>game_run\<close>: the first argument counts the rounds left, the second
  is the loop variable \<open>i\<close>.
\<close>

fun game_rounds :: "nat \<Rightarrow> nat \<Rightarrow> (nat \<Rightarrow> round_env) \<Rightarrow> GameState
    \<Rightarrow> GameState \<times> printed list" where
  "game_rounds 0 i env state = (state, [])"
| "game_rounds (Suc n) i env state =
     (let difficulty_filter = (if difficulty (config state) \<ge> 0 then difficulty (config state)
                               else - 1)
      in case question_bank_get_random (question_bank state) difficulty_filter
                (rand_value (env i)) of
           None \<Rightarrow> (state, [OutNoQuestions])
         | Some question \<Rightarrow>
             (case game_ask_question state question (env i) of
                (user_answer, state1, out1) \<Rightarrow>
                  if user_answer = - 1 then (state1, out1 @ [OutQuit])
                  else
                    (case update_stats state1 question user_answer of
                       (state2, out2) \<Rightarrow>
                         (let out3 = (if num_players (config state2) > 1
                                      then [OutScores (map p_score
                                              (take (nat (num_players (config state2)))
                                                 (players state2)))]
                                      else []);
                              state3 = (if num_players (config state2) > 1
                                        then game_next_player state2 else state2)
                          in case game_rounds n (i + 1) env state3 of
                               (state4, out4) \<Rightarrow>
                                 (state4, out1 @ out2 @ out3 @ [OutContinue] @ out4)))))"

text \<open>The search for the winner in \<open>game_display_stats\<close>, over the first \<open>n\<close> players.\<close>

definition winner_step :: "Player list \<Rightarrow> nat \<Rightarrow> int \<times> nat \<times> bool \<Rightarrow> int \<times> nat \<times> bool" where
  "winner_step ps i acc =
     (case acc of (max_score, winner_idx, tie) \<Rightarrow>
        if p_score (ps ! i) > max_score then (p_score (ps ! i), i, False)
        else if p_score (ps ! i) = max_score then (max_score, winner_idx, True)
        else (max_score, winner_idx, tie))"

definition find_winner :: "Player list \<Rightarrow> nat \<Rightarrow> int \<times> nat \<times> bool" where
  "find_winner ps n = fold (winner_step ps) [1..<n] (p_score (ps ! 0), 0, False)"

definition game_display_stats :: "GameState \<Rightarrow> report" where
  "game_display_stats state =
     (if num_players (config state) > 1 then
        (case find_winner (players state) (nat (num_players (config state))) of
           (max_score, winner_idx, tie) \<Rightarrow>
             MultiplayerReport (players state)
               (if \<not> tie then Winner winner_idx max_score else Tie))
      else SinglePlayerReport (stats state))"

text \<open>\<open>game_run\<close>: the value returned, the state afterwards and the output.\<close>

definition game_run :: "GameState \<Rightarrow> (nat \<Rightarrow> round_env) \<Rightarrow> int \<times> GameState \<times> printed list" where
  "game_run state env =
     (let total_rounds = (if num_players (config state) > 1
                          then questions_per_game (config state) * num_players (config state)
                          else questions_per_game (config state))
      in case game_rounds (nat total_rounds) 0 env (state\<lparr>game_active := True\<rparr>) of
           (state1, out) \<Rightarrow>
             (let state2 = state1\<lparr>game_active := False\<rparr>
              in (score (stats state2), state2,
                  [OutWelcome] @ out @ [OutReport (game_display_stats state2)])))"

subsection \<open>Reading a round and its output\<close>

text \<open>The countdown after the thread steps among the given events.\<close>

fun countdown_after :: "event list \<Rightarrow> Timer \<Rightarrow> Timer" where
  "countdown_after [] t = t"
| "countdown_after (Tick # es) t = countdown_after es (thread_step t)"
| "countdown_after (OrphanTick i # es) t = countdown_after es (orphan_step i t)"
| "countdown_after (Poll sel # es) t = countdown_after es t"

text \<open>
  An event that leaves the round open while the polling loop is running: a step of the
  countdown thread, an iteration that finds nothing to read or fails to read a line, and
  a line that is neither a quit nor a choice. For each line of this kind the loop prints
  the reprompt.
\<close>

fun leaves_open :: "event \<Rightarrow> bool" where
  "leaves_open Tick = True"
| "leaves_open (OrphanTick i) = False"
| "leaves_open (Poll None) = True"
| "leaves_open (Poll (Some pending)) =
     (case read_input MAX_INPUT_LEN pending of
        Inl err \<Rightarrow> True
      | Inr line \<Rightarrow>
          \<not> is_quit (sanitize_input line) \<and> answer_of (sanitize_input line) = None)"

fun reprompt :: "event \<Rightarrow> printed list" where
  "reprompt (Poll (Some pending)) =
     (case read_input MAX_INPUT_LEN pending of
        Inl err \<Rightarrow> []
      | Inr line \<Rightarrow> [OutInvalidInput])"
| "reprompt e = []"

definition reprompts :: "event list \<Rightarrow> printed list" where
  "reprompts es = concat (map reprompt es)"

text \<open>The timer as \<open>game_ask_question\<close> has it when the polling loop begins.\<close>

definition timer_at_start :: "GameState \<Rightarrow> Timer" where
  "timer_at_start state =
     snd (timer_start (snd (timer_reset (timer state) (time_per_question (config state)))))"

text \<open>
  Every round that is played to its end prints the request to press Enter once, so the
  rounds completed are counted on the output. The points awarded are those of the
  messages for correct answers.
\<close>

definition rounds_completed :: "printed list \<Rightarrow> nat" where
  "rounds_completed out = length (filter (\<lambda>x. x = OutContinue) out)"

fun points_of :: "printed \<Rightarrow> int" where
  "points_of (OutCorrect points) = points"
| "points_of _ = 0"

definition points_awarded :: "printed list \<Rightarrow> int" where
  "points_awarded out = sum_list (map points_of out)"

text \<open>The key of the difficulty field as it stands in a record.\<close>

definition difficulty_key :: string where
  "difficulty_key = dquote # ''difficulty'' @ [dquote]"

section \<open>Examples\<close>

subsection \<open>Questions, configurations and states\<close>

text \<open>A question with four options, and a question with two options.\<close>

definition capital_question :: Question where
  "capital_question =
     \<lparr>q_question = ''What is the capital of France?'',
      q_options = [''London'', ''Berlin'', ''Paris'', ''Madrid''],
      q_correct_answer = 2, q_difficulty = DIFFICULTY_EASY, q_category = CATEGORY_GENERAL\<rparr>"


text \<open>The configuration the main program builds, for the given number of players.\<close>

definition main_config :: "int \<Rightarrow> GameConfig" where
  "main_config n =
     \<lparr>questions_per_game = 5, time_per_question = 30, difficulty = - 1, use_timer = True,
      num_players = n\<rparr>"

text \<open>The states \<open>game_init\<close> builds over a bank of one of the questions.\<close>

definition start_state :: "int \<Rightarrow> GameState" where
  "start_state n = the (game_init [capital_question] (main_config n))"


text \<open>A game of three players with the given final scores.\<close>

definition three_players :: "int \<Rightarrow> int \<Rightarrow> int \<Rightarrow> GameState" where
  "three_players a b c =
     \<lparr>question_bank = [],
      config = \<lparr>questions_per_game = 5, time_per_question = 30, difficulty = - 1,
                use_timer = True, num_players = 3\<rparr>,
      stats = \<lparr>total_questions = 0, correct_answers = 0, wrong_answers = 0, timeouts = 0,
               score = 0\<rparr>,
      players = [new_player\<lparr>p_score := a\<rparr>, new_player\<lparr>p_score := b\<rparr>,
                 new_player\<lparr>p_score := c\<rparr>],
      current_player = 0, timer = idle_timer, game_active = False\<rparr>"

subsection \<open>Rounds and timers\<close>

text \<open>
  A round in which one second passes before the given line arrives (the countdown
  thread begins, tests the loop condition, and counts one second), and a session in
  which the first \<open>k\<close> rounds receive the line \<open>3\<close> and the next one the line \<open>q\<close>.
\<close>

definition line_after_a_second :: "string \<Rightarrow> round_env" where
  "line_after_a_second line =
     \<lparr>rand_value = 0,
      events = [Poll None, Tick, Tick, Tick, Poll (Some (line @ [CHR 0x0A]))],
      stdin_pending = []\<rparr>"

definition quit_after :: "nat \<Rightarrow> nat \<Rightarrow> round_env" where
  "quit_after k i = line_after_a_second (if i < k then ''3'' else ''q'')"

text \<open>
  A round in which two lines arrive, one after the other, when the countdown thread has
  begun and not yet counted a second.
\<close>

definition two_lines :: "string \<Rightarrow> string \<Rightarrow> round_env" where
  "two_lines first second =
     \<lparr>rand_value = 0,
      events = [Poll None, Tick, Tick, Poll (Some (first @ [CHR 0x0A])),
                Poll (Some (second @ [CHR 0x0A]))],
      stdin_pending = []\<rparr>"

text \<open>
  A session in which the first two rounds receive the line \<open>3\<close>, and the third one the
  line \<open>9\<close> and then the line \<open>q\<close>.
\<close>

definition quit_in_third :: "nat \<Rightarrow> round_env" where
  "quit_in_third i = (if i < 2 then line_after_a_second ''3'' else two_lines ''9'' ''q'')"

text \<open>
  A timer of two seconds, and the steps in which the game resets and starts it and its
  thread counts down to the end: the thread's first section, two passes of the loop,
  and the last test of the loop condition.
\<close>

definition two_second_timer :: Timer where
  "two_second_timer = the (timer_init 2)"

definition count_down_two :: "timer_op list" where
  "count_down_two = [TimerReset 2, TimerStart, ThreadStep, ThreadStep, ThreadStep, ThreadStep,
     ThreadStep, ThreadStep]"

subsection \<open>Records and question files\<close>

text \<open>
  Two records that differ in the value of the difficulty field, the text they share
  before that field, and the question they are parsed to, up to its difficulty.
\<close>

definition medium_record :: string where
  \<open>medium_record = ''{"question": "Q?", "options": ["A", "B"], "correct": 1, "difficulty": "medium"}''\<close>

definition hardest_record :: string where
  \<open>hardest_record = ''{"question": "Q?", "options": ["A", "B"], "correct": 1, "difficulty": "hardest"}''\<close>

text \<open>
  A record without difficulty field. A record with the difficulty \<open>hard\<close> and an option
  whose text is \<open>difficulty\<close>, and the text before its difficulty field. A record of 1026
  bytes, with a question of 951 characters and the difficulty \<open>hard\<close>.
\<close>

definition plain_record :: string where
  \<open>plain_record = ''{"question": "Q?", "options": ["A", "B"], "correct": 1}''\<close>

definition option_record :: string where
  \<open>option_record = ''{"question": "Q?", "options": ["difficulty", "ease"], "correct": 1, "difficulty": "hard"}''\<close>

definition option_prefix :: string where
  \<open>option_prefix = ''{"question": "Q?", "options": ["difficulty", "ease"], "correct": 1, ''\<close>

definition long_record :: string where
  \<open>long_record = ''{"question": "'' @ replicate 950 CHR ''x''
     @ ''?", "options": ["A", "B"], "correct": 1, "difficulty": "hard"}''\<close>

definition record_prefix :: string where
  \<open>record_prefix = ''{"question": "Q?", "options": ["A", "B"], "correct": 1, ''\<close>

definition parsed_record :: "Difficulty \<Rightarrow> Question" where
  "parsed_record d =
     \<lparr>q_question = ''Q?'', q_options = [''A'', ''B''], q_correct_answer = 1,
      q_difficulty = d, q_category = CATEGORY_GENERAL\<rparr>"

text \<open>
  Question files. The record of the first is laid out with one array element on each
  line; it has the two options Yes and No and the correct index 3. The second file
  holds a record with four options and the correct index 5, and a record with the
  correct index 2.
\<close>

definition text_lines :: "string list \<Rightarrow> string" where
  "text_lines ls = concat (map (\<lambda>l. l @ [CHR 0x0A]) ls)"

definition spread_record :: string where
  \<open>spread_record = butlast (text_lines
     [''{'',
      ''  "question": "Is water wet?",'',
      ''  "options": ['',
      ''    "Yes",'',
      ''    "No"'',
      ''  ],'',
      ''  "correct": 3,'',
      ''  "difficulty": "easy"'',
      ''}''])\<close>

definition spread_file :: string where
  "spread_file = text_lines [''[''] @ spread_record @ text_lines [[], '']'']"

definition spread_question :: Question where
  "spread_question =
     \<lparr>q_question = ''Is water wet?'',
      q_options = [''Yes'', ''No'', ''correct'', ''difficulty''],
      q_correct_answer = 3, q_difficulty = DIFFICULTY_EASY, q_category = CATEGORY_GENERAL\<rparr>"

definition five_record :: string where
  \<open>five_record = ''{"question": "What is 2 + 2?", "options": ["1", "2", "3", "4"], "correct": 5, "difficulty": "easy"}''\<close>

definition capital_record :: string where
  \<open>capital_record = ''{"question": "What is the capital of France?", "options": ["London", "Berlin", "Paris", "Madrid"], "correct": 2, "difficulty": "easy"}''\<close>

definition documented_file :: string where
  "documented_file =
     text_lines [''[''] @ five_record @ text_lines ['',''] @ capital_record
       @ text_lines [[], '']'']"

section \<open>Properties of the score\<close>

lemma sdiv_two_nonneg: "0 \<le> t \<Longrightarrow> (t::int) sdiv 2 = t div 2"
  by (simp add: signed_divide_int_def sgn_if)

lemma sdiv_two_neg: "t < 0 \<Longrightarrow> (t::int) sdiv 2 = - ((- t) div 2)"
  by (simp add: signed_divide_int_def sgn_if)

lemma sdiv_two_mono: "(a::int) \<le> b \<Longrightarrow> a sdiv 2 \<le> b sdiv 2"
proof -
  assume le: "a \<le> b"
  consider "0 \<le> a" | "a < 0" "0 \<le> b" | "a < 0" "b < 0" by linarith
  then show ?thesis
  proof cases
    case 1
    with le show ?thesis by (simp add: sdiv_two_nonneg zdiv_mono1)
  next
    case 2
    then have "a sdiv 2 \<le> 0" by (simp add: sdiv_two_neg)
    moreover from 2 have "0 \<le> b sdiv 2" by (simp add: sdiv_two_nonneg)
    ultimately show ?thesis by linarith
  next
    case 3
    with le have "(- b) div 2 \<le> (- a) div 2" by (simp add: zdiv_mono1)
    with 3 show ?thesis by (simp add: sdiv_two_neg)
  qed
qed

text \<open>The sum never leaves the range of a 32-bit \<open>int\<close>, so no wrap-around is modelled.\<close>

lemma game_calculate_score_in_range:
  "INT_MIN \<le> t \<Longrightarrow> t \<le> INT_MAX \<Longrightarrow>
   INT_MIN \<le> game_calculate_score c t d \<and> game_calculate_score c t d \<le> INT_MAX"
proof -
  assume lo: "INT_MIN \<le> t" and hi: "t \<le> INT_MAX"
  have b: "10 \<le> base_points d \<and> base_points d \<le> 30" by (cases d) simp_all
  have "INT_MIN sdiv 2 \<le> t sdiv 2" using lo by (rule sdiv_two_mono)
  moreover have "t sdiv 2 \<le> INT_MAX sdiv 2" using hi by (rule sdiv_two_mono)
  moreover have "INT_MIN sdiv 2 = - (2 ^ 30)" "INT_MAX sdiv 2 = 2 ^ 30 - 1"
    by (simp_all add: INT_MIN_def INT_MAX_def signed_divide_int_def)
  ultimately show ?thesis
    using b by (simp add: game_calculate_score_def INT_MIN_def INT_MAX_def)
qed

text \<open>
  Claim C1, as the code has it. An incorrect answer scores 0. A correct answer scores
  \<open>base(difficulty) + time_remaining / 2\<close> with base 10, 20, 30 for Easy, Medium, Hard,
  where \<open>/\<close> is C's integer division, which truncates towards zero; it is
  \<open>floor(time_remaining / 2)\<close> whenever \<open>time_remaining\<close> is not negative. In particular
  score(true, 10, Medium) = 25, score(true, 0, Easy) = 10 and score(false, 29, Hard) = 0.
\<close>

theorem game_calculate_score_value:
  "game_calculate_score False t d = 0
   \<and> game_calculate_score True t d = base_points d + t sdiv 2
   \<and> (0 \<le> t \<longrightarrow> game_calculate_score True t d = base_points d + t div 2)
   \<and> base_points DIFFICULTY_EASY = 10
   \<and> base_points DIFFICULTY_MEDIUM = 20
   \<and> base_points DIFFICULTY_HARD = 30
   \<and> game_calculate_score True 10 DIFFICULTY_MEDIUM = 25
   \<and> game_calculate_score True 0 DIFFICULTY_EASY = 10
   \<and> game_calculate_score False 29 DIFFICULTY_HARD = 0"
  by (simp add: game_calculate_score_def sdiv_two_nonneg)

theorem game_calculate_score_value_witness:
  "(0::int) \<le> 7 \<and> game_calculate_score True 7 DIFFICULTY_HARD = 33"
  using game_calculate_score_value [of 7 DIFFICULTY_HARD] by simp

text \<open>
  Claim C1 as stated reads the bonus as \<open>floor(time_remaining / 2)\<close> for every integer
  \<open>time_remaining\<close>. At \<open>time_remaining = -1\<close> the code returns 10 for Easy, while
  \<open>10 + floor(-1 / 2) = 9\<close>.
\<close>

theorem game_calculate_score_floor_counterexample:
  "game_calculate_score True (- 1) DIFFICULTY_EASY = 10
   \<and> base_points DIFFICULTY_EASY + (- 1) div 2 = 9
   \<and> game_calculate_score True (- 1) DIFFICULTY_EASY \<noteq> base_points DIFFICULTY_EASY + (- 1) div 2"
  by (simp add: game_calculate_score_def signed_divide_int_def)

text \<open>
  Claim C9. For a fixed difficulty and a correct answer the score is monotonically
  non-decreasing in \<open>time_remaining\<close>: \<open>t1 \<le> t2\<close> gives
  \<open>score(true, t1, d) \<le> score(true, t2, d)\<close>.
\<close>

theorem game_calculate_score_mono:
  "t1 \<le> t2 \<Longrightarrow> game_calculate_score True t1 d \<le> game_calculate_score True t2 d"
  by (simp add: game_calculate_score_def sdiv_two_mono)

theorem game_calculate_score_mono_witness:
  "(- 3::int) \<le> 8
   \<and> game_calculate_score True (- 3) DIFFICULTY_HARD \<le> game_calculate_score True 8 DIFFICULTY_HARD"
proof -
  have h: "(- 3::int) \<le> 8" by simp
  from game_calculate_score_mono [OF h, of DIFFICULTY_HARD] h show ?thesis by simp
qed

section \<open>The winner of a game of several players\<close>

lemma find_winner_one: "find_winner ps (Suc 0) = (p_score (ps ! 0), 0, False)"
  by (simp add: find_winner_def)

lemma find_winner_Suc: "1 \<le> n \<Longrightarrow> find_winner ps (Suc n) = winner_step ps n (find_winner ps n)"
  by (simp add: find_winner_def)

lemma find_winner_inv:
  "1 \<le> n \<Longrightarrow> find_winner ps n = (m, w, tie) \<Longrightarrow>
     w < n \<and> p_score (ps ! w) = m \<and> (\<forall>j<n. p_score (ps ! j) \<le> m)
     \<and> (\<forall>j<w. p_score (ps ! j) < m)
     \<and> (tie \<longleftrightarrow> (\<exists>j<n. j \<noteq> w \<and> p_score (ps ! j) = m))"
proof (induction n arbitrary: m w tie rule: dec_induct)
  case base
  then show ?case by (simp add: find_winner_one)
next
  case (step n)
  obtain m0 w0 tie0 where prev: "find_winner ps n = (m0, w0, tie0)"
    by (cases "find_winner ps n") auto
  from step.IH [OF prev] have
    w0: "w0 < n" and sc: "p_score (ps ! w0) = m0" and
    le: "\<forall>j<n. p_score (ps ! j) \<le> m0" and lt: "\<forall>j<w0. p_score (ps ! j) < m0" and
    t0: "tie0 \<longleftrightarrow> (\<exists>j<n. j \<noteq> w0 \<and> p_score (ps ! j) = m0)"
    by auto
  from step.hyps(1) step.prems prev
  have eq: "(m, w, tie) = winner_step ps n (m0, w0, tie0)"
    by (simp add: find_winner_Suc)
  consider (gt) "p_score (ps ! n) > m0" | (eq) "p_score (ps ! n) = m0" | (lt) "p_score (ps ! n) < m0"
    by linarith
  then show ?case
  proof cases
    case gt
    with eq have r: "m = p_score (ps ! n)" "w = n" "tie = False" by (simp_all add: winner_step_def)
    have "\<forall>j<n. p_score (ps ! j) < m" using le gt r by fastforce
    then show ?thesis using r by (auto simp: less_Suc_eq)
  next
    case eq
    with \<open>(m, w, tie) = _\<close> have r: "m = m0" "w = w0" "tie = True" by (simp_all add: winner_step_def)
    show ?thesis using r w0 sc le lt eq by (auto simp: less_Suc_eq)
  next
    case lt
    with eq have r: "m = m0" "w = w0" "tie = tie0" by (simp_all add: winner_step_def)
    show ?thesis using r w0 sc le \<open>\<forall>j<w0. _\<close> t0 lt by (auto simp: less_Suc_eq)
  qed
qed


text \<open>
  Claim C4. In a game of several players the final report names a single winner if and
  only if exactly one player has the highest score, and reports a tie, with no winner
  named, if and only if two or more players share the highest score. The winner named
  is the player with that score.
\<close>

theorem game_display_stats_winner:
  fixes state :: GameState
  defines "scores \<equiv> map p_score (players state)"
  defines "best \<equiv> Max (set scores)"
  assumes np: "num_players (config state) > 1"
      and len: "length (players state) = nat (num_players (config state))"
  shows "\<exists>w. game_display_stats state = MultiplayerReport (players state) w
      \<and> ((\<exists>i mx. w = Winner i mx) \<longleftrightarrow> (\<exists>!i. i < length scores \<and> scores ! i = best))
      \<and> (w = Tie \<longleftrightarrow> (\<exists>i j. i < j \<and> j < length scores \<and> scores ! i = best \<and> scores ! j = best))
      \<and> (\<forall>i mx. w = Winner i mx \<longrightarrow> mx = best \<and> i < length scores \<and> scores ! i = best)"
proof -
  define n where "n = length (players state)"
  have n2: "1 \<le> n" "2 \<le> n" using np len by (simp_all add: n_def)
  have nn: "nat (num_players (config state)) = n" using len by (simp add: n_def)
  obtain m w tie where fw: "find_winner (players state) n = (m, w, tie)"
    by (cases "find_winner (players state) n") auto
  from find_winner_inv [OF n2(1) fw] have
    w: "w < n" and sc: "p_score (players state ! w) = m" and
    le: "\<forall>j<n. p_score (players state ! j) \<le> m" and
    lt: "\<forall>j<w. p_score (players state ! j) < m" and
    t: "tie \<longleftrightarrow> (\<exists>j<n. j \<noteq> w \<and> p_score (players state ! j) = m)"
    by auto
  have nth: "\<And>j. j < n \<Longrightarrow> scores ! j = p_score (players state ! j)"
    by (simp add: scores_def n_def)
  have ls: "length scores = n" by (simp add: scores_def n_def)
  have best: "best = m"
    unfolding best_def
  proof (rule Max_eqI)
    show "finite (set scores)" by simp
    show "\<And>y. y \<in> set scores \<Longrightarrow> y \<le> m"
      using le nth ls by (metis in_set_conv_nth)
    show "m \<in> set scores" using w sc nth ls by (metis nth_mem)
  qed
  have rep: "game_display_stats state =
      MultiplayerReport (players state) (if \<not> tie then Winner w m else Tie)"
    using np fw by (simp add: game_display_stats_def nn)
  have at_w: "w < length scores \<and> scores ! w = best"
    using w sc nth ls best by simp
  show ?thesis
  proof (cases tie)
    case True
    with t obtain j where j: "j < n" "j \<noteq> w" "p_score (players state ! j) = m" by auto
    then have at_j: "j < length scores \<and> scores ! j = best"
      using nth ls best by simp
    have two: "\<exists>i j. i < j \<and> j < length scores \<and> scores ! i = best \<and> scores ! j = best"
    proof (cases "j < w")
      case True
      with at_j at_w show ?thesis by blast
    next
      case False
      with j(2) have "w < j" by simp
      with at_j at_w show ?thesis by blast
    qed
    have nuniq: "\<not> (\<exists>!i. i < length scores \<and> scores ! i = best)"
    proof
      assume "\<exists>!i. i < length scores \<and> scores ! i = best"
      with at_j at_w have "j = w" by blast
      with j(2) show False by simp
    qed
    from True rep two nuniq show ?thesis by simp
  next
    case False
    with t have only: "\<And>j. j < n \<Longrightarrow> p_score (players state ! j) = m \<Longrightarrow> j = w" by auto
    have only': "i = w" if "i < length scores \<and> scores ! i = best" for i
    proof -
      from that have "i < n" "p_score (players state ! i) = m"
        using nth [of i] ls best by simp_all
      then show ?thesis by (rule only)
    qed
    have uniq: "\<exists>!i. i < length scores \<and> scores ! i = best"
      using at_w only' by (rule ex1I)
    have ntwo: "\<not> (\<exists>i j. i < j \<and> j < length scores \<and> scores ! i = best \<and> scores ! j = best)"
    proof
      assume "\<exists>i j. i < j \<and> j < length scores \<and> scores ! i = best \<and> scores ! j = best"
      then obtain i j where ij: "i < j" "j < length scores" "scores ! i = best" "scores ! j = best"
        by blast
      then have "i = w" "j = w" using only' [of i] only' [of j] by simp_all
      with ij(1) show False by simp
    qed
    from False rep uniq ntwo at_w best show ?thesis by simp
  qed
qed

theorem game_display_stats_winner_witness:
  "num_players (config (three_players 10 10 5)) > 1
   \<and> length (players (three_players 10 10 5)) = nat (num_players (config (three_players 10 10 5)))
   \<and> game_display_stats (three_players 10 10 5)
       = MultiplayerReport (players (three_players 10 10 5)) Tie"
proof -
  let ?s = "three_players 10 10 5"
  have h1: "num_players (config ?s) > 1" by (simp add: three_players_def)
  have h2: "length (players ?s) = nat (num_players (config ?s))"
    by (simp add: three_players_def)
  have sc: "map p_score (players ?s) = [10, 10, 5]"
    by (simp add: three_players_def new_player_def)
  from game_display_stats_winner [OF h1 h2] obtain w where
    rep: "game_display_stats ?s = MultiplayerReport (players ?s) w" and
    tie: "w = Tie \<longleftrightarrow> (\<exists>i j. i < j \<and> j < length [10, 10, 5::int]
            \<and> [10, 10, 5::int] ! i = Max (set [10, 10, 5])
            \<and> [10, 10, 5::int] ! j = Max (set [10, 10, 5]))"
    unfolding sc by blast
  have "(0::nat) < 1 \<and> (1::nat) < length [10, 10, 5::int]
      \<and> [10, 10, 5::int] ! 0 = Max (set [10, 10, 5])
      \<and> [10, 10, 5::int] ! 1 = Max (set [10, 10, 5])"
    by simp
  then have "w = Tie" using tie by blast
  with rep h1 h2 show ?thesis by simp
qed


text \<open>The final scores 10, 5, 5 make player 0 the only winner; 10, 10, 5 are a tie.\<close>

lemma upt_1_3: "[Suc 0..<3] = [1, 2]"
  by (simp add: upt_conv_Cons)

lemma game_display_stats_sole_winner:
  "game_display_stats (three_players 10 5 5)
     = MultiplayerReport (players (three_players 10 5 5)) (Winner 0 10)"
  by (simp add: three_players_def game_display_stats_def find_winner_def winner_step_def
      upt_1_3 new_player_def)

section \<open>Frame properties of a round\<close>

lemma with_output_parts:
  "fst (with_output x r) = fst r" "fst (snd (with_output x r)) = fst (snd r)"
  "snd (snd (with_output x r)) = x # snd (snd r)"
  by (simp_all add: with_output_def split: prod.splits)

lemma poll_input_no_continue: "OutContinue \<notin> set (snd (snd (poll_input t es)))"
  by (induction t es rule: poll_input.induct)
    (auto simp: with_output_parts Let_def split: option.splits sum.splits)

lemma poll_input_no_correct: "OutCorrect p \<notin> set (snd (snd (poll_input t es)))"
  by (induction t es rule: poll_input.induct)
    (auto simp: with_output_parts Let_def split: option.splits sum.splits)

lemma poll_input_no_question: "OutQuestion q \<notin> set (snd (snd (poll_input t es)))"
  by (induction t es rule: poll_input.induct)
    (auto simp: with_output_parts Let_def split: option.splits sum.splits)

lemma game_ask_question_frame:
  assumes "game_ask_question state question env = (answer, state1, out1)"
  shows "config state1 = config state" "stats state1 = stats state"
    "players state1 = players state" "current_player state1 = current_player state"
    "question_bank state1 = question_bank state"
  using assms
  by (auto simp: game_ask_question_def Let_def split: if_splits prod.splits)

lemma game_ask_question_out:
  assumes "game_ask_question state question env = (answer, state1, out1)"
  shows "\<exists>out. out1 = OutQuestion question # out \<and> OutContinue \<notin> set out
     \<and> (\<forall>p. OutCorrect p \<notin> set out) \<and> (\<forall>q. OutQuestion q \<notin> set out)"
proof (cases "use_timer (config state)")
  case True
  let ?t = "snd (timer_start (snd (timer_reset (timer state) (time_per_question (config state)))))"
  obtain a t3 out where p: "poll_input ?t (events env) = (a, t3, out)"
    by (cases "poll_input ?t (events env)") auto
  from poll_input_no_continue [of ?t "events env"] poll_input_no_correct [of _ ?t "events env"]
    poll_input_no_question [of _ ?t "events env"] p
  have "OutContinue \<notin> set out" "\<forall>p. OutCorrect p \<notin> set out" "\<forall>q. OutQuestion q \<notin> set out"
    by simp_all
  moreover from True assms p have "out1 = OutQuestion question # out"
    by (simp add: game_ask_question_def Let_def)
  ultimately show ?thesis by blast
next
  case False
  with assms show ?thesis by (auto simp: game_ask_question_def)
qed


lemma update_stats_frame:
  assumes "update_stats state question a = (state2, out2)"
  shows "config state2 = config state" "current_player state2 = current_player state"
    "question_bank state2 = question_bank state" "timer state2 = timer state"
    "length (players state2) = length (players state)"
    "OutContinue \<notin> set out2" "OutQuestion q \<notin> set out2"
  using assms
  by (auto simp: update_stats_def Let_def split: if_splits option.splits)

lemma update_stats_multi:
  assumes "update_stats state question a = (state2, out2)" "num_players (config state) > 1"
  shows "stats state2 = stats state"
  using assms
  by (auto simp: update_stats_def Let_def split: if_splits option.splits)

lemma update_stats_single:
  assumes "update_stats state question a = (state2, out2)" "\<not> num_players (config state) > 1"
  shows "players state2 = players state"
    "score (stats state2) = score (stats state) + points_awarded out2"
  using assms
  by (auto simp: update_stats_def Let_def points_awarded_def split: if_splits)

lemma game_next_player_frame:
  "config (game_next_player state) = config state"
  "stats (game_next_player state) = stats state"
  "players (game_next_player state) = players state"
  "question_bank (game_next_player state) = question_bank state"
  "timer (game_next_player state) = timer state"
  by (simp_all add: game_next_player_def)

lemma smod_nonneg: "0 \<le> a \<Longrightarrow> 0 < b \<Longrightarrow> a smod b = a mod (b::int)"
  by (simp add: signed_modulo_int_def sgn_if)

lemma game_next_player_index:
  assumes "num_players (config state) > 1" "0 \<le> current_player state"
  shows "current_player (game_next_player state)
     = (current_player state + 1) mod num_players (config state)"
  using assms by (simp add: game_next_player_def smod_nonneg)

lemma rounds_completed_append:
  "rounds_completed (xs @ ys) = rounds_completed xs + rounds_completed ys"
  by (simp add: rounds_completed_def)

lemma rounds_completed_none: "OutContinue \<notin> set xs \<Longrightarrow> rounds_completed xs = 0"
  by (induction xs) (auto simp: rounds_completed_def)

lemma game_rounds_Suc:
  assumes "question_bank_get_random (question_bank state)
             (if difficulty (config state) \<ge> 0 then difficulty (config state) else - 1)
             (rand_value (env i)) = Some question"
      and "game_ask_question state question (env i) = (user_answer, state1, out1)"
      and "user_answer \<noteq> - 1"
      and "update_stats state1 question user_answer = (state2, out2)"
      and "game_rounds n (i + 1) env
             (if num_players (config state2) > 1 then game_next_player state2 else state2)
           = (state4, out4)"
  shows "game_rounds (Suc n) i env state
     = (state4, out1 @ out2
          @ (if num_players (config state2) > 1
             then [OutScores (map p_score (take (nat (num_players (config state2)))
                                              (players state2)))]
             else [])
          @ [OutContinue] @ out4)"
  using assms by (simp add: Let_def)

lemma game_rounds_quit:
  assumes "question_bank_get_random (question_bank state)
             (if difficulty (config state) \<ge> 0 then difficulty (config state) else - 1)
             (rand_value (env i)) = Some question"
      and "game_ask_question state question (env i) = (- 1, state1, out1)"
  shows "game_rounds (Suc n) i env state = (state1, out1 @ [OutQuit])"
  using assms by (simp add: Let_def)

lemma game_rounds_no_question:
  assumes "question_bank_get_random (question_bank state)
             (if difficulty (config state) \<ge> 0 then difficulty (config state) else - 1)
             (rand_value (env i)) = None"
  shows "game_rounds (Suc n) i env state = (state, [OutNoQuestions])"
  using assms by (simp add: Let_def)

declare game_rounds.simps(2) [simp del]

lemma game_rounds_current_player:
  assumes "num_players (config state) > 1" "0 \<le> current_player state"
      and "game_rounds n i env state = (state', out)"
  shows "config state' = config state \<and>
     current_player state'
       = (if rounds_completed out = 0 then current_player state
          else (current_player state + int (rounds_completed out)) mod num_players (config state))"
  using assms
proof (induction n arbitrary: i state state' out)
  case 0
  then show ?case by (simp add: rounds_completed_def)
next
  case (Suc n)
  let ?f = "if difficulty (config state) \<ge> 0 then difficulty (config state) else - 1"
  show ?case
  proof (cases "question_bank_get_random (question_bank state) ?f (rand_value (env i))")
    case None
    from game_rounds_no_question [where env = env and i = i and n = n, OF None] Suc.prems(3)
    have "state' = state" "out = [OutNoQuestions]" by simp_all
    then show ?thesis by (simp add: rounds_completed_def)
  next
    case (Some question)
    obtain a state1 out1 where ask: "game_ask_question state question (env i) = (a, state1, out1)"
      by (cases "game_ask_question state question (env i)") auto
    note fr1 = game_ask_question_frame [OF ask]
    from game_ask_question_out [OF ask] have "OutContinue \<notin> set out1" by auto
    then have c1: "rounds_completed out1 = 0" by (rule rounds_completed_none)
    show ?thesis
    proof (cases "a = - 1")
      case True
      from game_rounds_quit [where env = env and i = i and n = n, OF Some ask [unfolded True]] Suc.prems(3)
      have "state' = state1" "out = out1 @ [OutQuit]" by simp_all
      with fr1 c1 show ?thesis by (simp add: rounds_completed_append rounds_completed_def)
    next
      case False
      obtain state2 out2 where upd: "update_stats state1 question a = (state2, out2)"
        by (cases "update_stats state1 question a") auto
      note fr2 = update_stats_frame [OF upd]
      have np2: "num_players (config state2) > 1" using fr2(1) fr1(1) Suc.prems(1) by simp
      let ?s3 = "game_next_player state2"
      obtain state4 out4 where rest: "game_rounds n (i + 1) env ?s3 = (state4, out4)"
        by (cases "game_rounds n (i + 1) env ?s3") auto
      have rest': "game_rounds n (i + 1) env
             (if num_players (config state2) > 1 then game_next_player state2 else state2)
           = (state4, out4)"
        using rest np2 by simp
      from game_rounds_Suc [where env = env and i = i, OF Some ask False upd rest'] Suc.prems(3) np2
      have res: "state' = state4"
        "out = out1 @ out2 @ [OutScores (map p_score (take (nat (num_players (config state2)))
                                              (players state2)))] @ [OutContinue] @ out4"
        by simp_all
      have c2: "rounds_completed out2 = 0" using fr2(6) by (rule rounds_completed_none)
      have cnt: "rounds_completed out = Suc (rounds_completed out4)"
        using res(2) c1 c2 by (simp add: rounds_completed_append) (simp add: rounds_completed_def)
      have cfg3: "config ?s3 = config state" using fr1(1) fr2(1) by (simp add: game_next_player_frame)
      have cp2: "current_player state2 = current_player state" using fr1(4) fr2(2) by simp
      have cp3: "current_player ?s3 = (current_player state + 1) mod num_players (config state)"
        using game_next_player_index [of state2] np2 cp2 Suc.prems(2) fr1(1) fr2(1) by simp
      have cp3_nonneg: "0 \<le> current_player ?s3" using cp3 Suc.prems(1) by simp
      from Suc.IH [OF _ cp3_nonneg rest] cfg3 Suc.prems(1)
      have ih: "config state4 = config state"
        "current_player state4
           = (if rounds_completed out4 = 0 then current_player ?s3
              else (current_player ?s3 + int (rounds_completed out4)) mod num_players (config state))"
        by simp_all
      have "current_player state4
          = (current_player state + int (Suc (rounds_completed out4))) mod num_players (config state)"
      proof (cases "rounds_completed out4 = 0")
        case True
        with ih(2) cp3 show ?thesis by simp
      next
        case False
        with ih(2) cp3 show ?thesis by (simp add: mod_simps algebra_simps)
      qed
      with ih(1) res(1) cnt show ?thesis by simp
    qed
  qed
qed


section \<open>Turn rotation\<close>

lemma game_rounds_single_current_player:
  assumes "\<not> num_players (config state) > 1"
      and "game_rounds n i env state = (state', out)"
  shows "config state' = config state \<and> current_player state' = current_player state"
  using assms
proof (induction n arbitrary: i state state' out)
  case 0
  then show ?case by simp
next
  case (Suc n)
  let ?f = "if difficulty (config state) \<ge> 0 then difficulty (config state) else - 1"
  show ?case
  proof (cases "question_bank_get_random (question_bank state) ?f (rand_value (env i))")
    case None
    from game_rounds_no_question [where env = env and i = i and n = n, OF None] Suc.prems(2)
    show ?thesis by simp
  next
    case (Some question)
    obtain a state1 out1 where ask: "game_ask_question state question (env i) = (a, state1, out1)"
      by (cases "game_ask_question state question (env i)") auto
    note fr1 = game_ask_question_frame [OF ask]
    show ?thesis
    proof (cases "a = - 1")
      case True
      from game_rounds_quit [where env = env and i = i and n = n, OF Some ask [unfolded True]]
        Suc.prems(2)
      have "state' = state1" by simp
      with fr1 show ?thesis by simp
    next
      case False
      obtain state2 out2 where upd: "update_stats state1 question a = (state2, out2)"
        by (cases "update_stats state1 question a") auto
      note fr2 = update_stats_frame [OF upd]
      have np2: "\<not> num_players (config state2) > 1" using fr2(1) fr1(1) Suc.prems(1) by simp
      obtain state4 out4 where rest: "game_rounds n (i + 1) env state2 = (state4, out4)"
        by (cases "game_rounds n (i + 1) env state2") auto
      have rest': "game_rounds n (i + 1) env
             (if num_players (config state2) > 1 then game_next_player state2 else state2)
           = (state4, out4)"
        using rest np2 by simp
      from game_rounds_Suc [where env = env and i = i, OF Some ask False upd rest'] Suc.prems(2)
      have res: "state' = state4" by simp
      from Suc.IH [OF np2 rest] fr1 fr2 res show ?thesis by simp
    qed
  qed
qed

lemma game_init_state:
  assumes "game_init bank cfg = Some state0"
  shows "config state0 = cfg" "current_player state0 = 0" "question_bank state0 = bank"
    "score (stats state0) = 0"
    "num_players cfg > 1 \<Longrightarrow> length (players state0) = nat (num_players cfg)"
  using assms
  by (auto simp: game_init_def game_init_players_def Let_def
      split: if_splits option.splits)

lemma game_run_parts:
  obtains state1 out1 where
    "game_rounds (nat (if num_players (config state) > 1
                       then questions_per_game (config state) * num_players (config state)
                       else questions_per_game (config state))) 0 env
       (state\<lparr>game_active := True\<rparr>) = (state1, out1)"
    "game_run state env
       = (score (stats state1), state1\<lparr>game_active := False\<rparr>,
          [OutWelcome] @ out1 @ [OutReport (game_display_stats (state1\<lparr>game_active := False\<rparr>))])"
proof -
  let ?n = "nat (if num_players (config state) > 1
                       then questions_per_game (config state) * num_players (config state)
                       else questions_per_game (config state))"
  obtain state1 out1 where r: "game_rounds ?n 0 env (state\<lparr>game_active := True\<rparr>) = (state1, out1)"
    by (cases "game_rounds ?n 0 env (state\<lparr>game_active := True\<rparr>)") auto
  then have "game_run state env
       = (score (stats state1), state1\<lparr>game_active := False\<rparr>,
          [OutWelcome] @ out1 @ [OutReport (game_display_stats (state1\<lparr>game_active := False\<rparr>))])"
    by (simp add: game_run_def Let_def)
  with r show ?thesis by (rule that)
qed

text \<open>
  Claim C5. The index of the current player starts at 0. With \<open>N > 1\<close> players it
  advances to \<open>(index + 1) mod N\<close> after every completed round, so after \<open>k\<close>
  completed rounds it is \<open>k mod N\<close>. With one player it is never advanced and no
  player is looked up through it.
\<close>

theorem turn_rotation:
  assumes init: "game_init bank cfg = Some state0"
  shows "current_player state0 = 0
     \<and> (num_players cfg > 1 \<longrightarrow>
          current_player (fst (snd (game_run state0 env)))
            = int (rounds_completed (snd (snd (game_run state0 env)))) mod num_players cfg)
     \<and> (num_players cfg \<le> 1 \<longrightarrow>
          current_player (fst (snd (game_run state0 env))) = 0
          \<and> game_get_current_player (fst (snd (game_run state0 env))) = None)
     \<and> (\<forall>state. num_players (config state) > 1 \<and> 0 \<le> current_player state \<longrightarrow>
          current_player (game_next_player state)
            = (current_player state + 1) mod num_players (config state))
     \<and> (\<forall>state. num_players (config state) \<le> 1 \<longrightarrow> game_next_player state = state)"
proof -
  note st = game_init_state [OF init]
  obtain state1 out1 where
    rounds: "game_rounds (nat (if num_players (config state0) > 1
                       then questions_per_game (config state0) * num_players (config state0)
                       else questions_per_game (config state0))) 0 env
       (state0\<lparr>game_active := True\<rparr>) = (state1, out1)" and
    run: "game_run state0 env
       = (score (stats state1), state1\<lparr>game_active := False\<rparr>,
          [OutWelcome] @ out1 @ [OutReport (game_display_stats (state1\<lparr>game_active := False\<rparr>))])"
    by (rule game_run_parts)
  have cnt: "rounds_completed (snd (snd (game_run state0 env))) = rounds_completed out1"
    by (simp add: run rounds_completed_def)
  have cp: "current_player (fst (snd (game_run state0 env))) = current_player state1"
    by (simp add: run)
  have multi: "current_player state1 = int (rounds_completed out1) mod num_players cfg"
    if "num_players cfg > 1"
  proof -
    from that have "config state1 = cfg \<and> current_player state1
       = (if rounds_completed out1 = 0 then 0
          else (0 + int (rounds_completed out1)) mod num_players cfg)"
      using game_rounds_current_player [OF _ _ rounds] st(1,2) by simp
    then show ?thesis by simp
  qed
  have single: "current_player state1 = 0 \<and> config state1 = cfg" if "num_players cfg \<le> 1"
    using that game_rounds_single_current_player [OF _ rounds] st(1,2) by simp
  have none: "game_get_current_player (fst (snd (game_run state0 env))) = None"
    if "num_players cfg \<le> 1"
    using single [OF that] that by (simp add: run game_get_current_player_def)
  show ?thesis
    using st(2) multi single none cnt cp
    by (simp add: game_next_player_index) (simp add: game_next_player_def)
qed



theorem turn_rotation_witness:
  "game_init [capital_question] (main_config 2) = Some (start_state 2)
   \<and> rounds_completed (snd (snd (game_run (start_state 2) (quit_after 3)))) = 3
   \<and> current_player (fst (snd (game_run (start_state 2) (quit_after 3)))) = 1"
proof -
  have init: "game_init [capital_question] (main_config 2) = Some (start_state 2)"
    by code_simp
  have r: "rounds_completed (snd (snd (game_run (start_state 2) (quit_after 3)))) = 3"
    by code_simp
  have n: "num_players (main_config 2) = 2" by (simp add: main_config_def)
  from turn_rotation [OF init, of "quit_after 3"]
  have "current_player (fst (snd (game_run (start_state 2) (quit_after 3))))
      = int (rounds_completed (snd (snd (game_run (start_state 2) (quit_after 3)))))
          mod num_players (main_config 2)"
    by (simp add: n)
  with init r n show ?thesis by simp
qed

section \<open>The value returned by a session\<close>

text \<open>Induction over the rounds of the game loop, one case for each way a round can end.\<close>

lemma game_rounds_induct [consumes 1, case_names Done NoQuestion Quit Round]:
  assumes run: "game_rounds n i env state = (state', out)"
    and r_done: "\<And>i state. P i state state []"
    and r_noq: "\<And>i state.
        question_bank_get_random (question_bank state)
          (if difficulty (config state) \<ge> 0 then difficulty (config state) else - 1)
          (rand_value (env i)) = None \<Longrightarrow> P i state state [OutNoQuestions]"
    and r_quit: "\<And>i state question state1 out1.
        question_bank_get_random (question_bank state)
          (if difficulty (config state) \<ge> 0 then difficulty (config state) else - 1)
          (rand_value (env i)) = Some question \<Longrightarrow>
        game_ask_question state question (env i) = (- 1, state1, out1) \<Longrightarrow>
        P i state state1 (out1 @ [OutQuit])"
    and r_round: "\<And>i state question a state1 out1 state2 out2 state4 out4.
        question_bank_get_random (question_bank state)
          (if difficulty (config state) \<ge> 0 then difficulty (config state) else - 1)
          (rand_value (env i)) = Some question \<Longrightarrow>
        game_ask_question state question (env i) = (a, state1, out1) \<Longrightarrow>
        a \<noteq> - 1 \<Longrightarrow>
        update_stats state1 question a = (state2, out2) \<Longrightarrow>
        P (i + 1) (if num_players (config state2) > 1 then game_next_player state2 else state2)
          state4 out4 \<Longrightarrow>
        P i state state4
          (out1 @ out2
            @ (if num_players (config state2) > 1
               then [OutScores (map p_score (take (nat (num_players (config state2)))
                                                (players state2)))]
               else [])
            @ [OutContinue] @ out4)"
  shows "P i state state' out"
  using run
proof (induction n arbitrary: i state state' out)
  case 0
  then show ?case using r_done by simp
next
  case (Suc n)
  let ?f = "if difficulty (config state) \<ge> 0 then difficulty (config state) else - 1"
  show ?case
  proof (cases "question_bank_get_random (question_bank state) ?f (rand_value (env i))")
    case None
    from game_rounds_no_question [where env = env and i = i and n = n, OF None] Suc.prems
    have "state' = state" "out = [OutNoQuestions]" by simp_all
    with r_noq [OF None] show ?thesis by simp
  next
    case (Some question)
    obtain a state1 out1 where ask: "game_ask_question state question (env i) = (a, state1, out1)"
      by (cases "game_ask_question state question (env i)") auto
    show ?thesis
    proof (cases "a = - 1")
      case True
      from game_rounds_quit [where env = env and i = i and n = n, OF Some ask [unfolded True]]
        Suc.prems
      have "state' = state1" "out = out1 @ [OutQuit]" by simp_all
      with r_quit [OF Some ask [unfolded True]] show ?thesis by simp
    next
      case False
      obtain state2 out2 where upd: "update_stats state1 question a = (state2, out2)"
        by (cases "update_stats state1 question a") auto
      let ?s3 = "if num_players (config state2) > 1 then game_next_player state2 else state2"
      obtain state4 out4 where rest: "game_rounds n (i + 1) env ?s3 = (state4, out4)"
        by (cases "game_rounds n (i + 1) env ?s3") auto
      from game_rounds_Suc [where env = env and i = i, OF Some ask False upd rest] Suc.prems
      have res: "state' = state4"
        "out = out1 @ out2
            @ (if num_players (config state2) > 1
               then [OutScores (map p_score (take (nat (num_players (config state2)))
                                                (players state2)))]
               else [])
            @ [OutContinue] @ out4"
        by simp_all
      from r_round [OF Some ask False upd Suc.IH [OF rest]] res show ?thesis by simp
    qed
  qed
qed

lemma game_rounds_config:
  assumes "game_rounds n i env state = (state', out)"
  shows "config state' = config state"
  using assms
proof (induction rule: game_rounds_induct)
  case (Round i state question a state1 out1 state2 out2 state4 out4)
  then show ?case
    using game_ask_question_frame(1) [OF Round(2)] update_stats_frame(1) [OF Round(4)]
    by (simp add: game_next_player_frame split: if_splits)
qed (simp_all add: game_ask_question_frame)

lemma game_rounds_multi_stats:
  assumes "game_rounds n i env state = (state', out)" "num_players (config state) > 1"
  shows "stats state' = stats state"
  using assms
proof (induction rule: game_rounds_induct)
  case (Round i state question a state1 out1 state2 out2 state4 out4)
  note fr1 = game_ask_question_frame [OF Round(2)]
  note fr2 = update_stats_frame [OF Round(4)]
  have np1: "num_players (config state1) > 1" using fr1(1) Round.prems by simp
  have np2: "num_players (config state2) > 1" using fr2(1) np1 by simp
  have "stats state2 = stats state" using update_stats_multi [OF Round(4) np1] fr1(2) by simp
  with Round.IH np2 show ?case by (simp add: game_next_player_frame)
qed (simp_all add: game_ask_question_frame)

lemma points_awarded_append: "points_awarded (xs @ ys) = points_awarded xs + points_awarded ys"
  by (simp add: points_awarded_def)

lemma points_awarded_none: "\<forall>p. OutCorrect p \<notin> set xs \<Longrightarrow> points_awarded xs = 0"
proof (induction xs)
  case Nil
  then show ?case by (simp add: points_awarded_def)
next
  case (Cons x xs)
  then show ?case by (cases x) (auto simp: points_awarded_def)
qed

lemma game_ask_question_points:
  assumes "game_ask_question state question env = (answer, state1, out1)"
  shows "points_awarded out1 = 0"
proof -
  from game_ask_question_out [OF assms] obtain out where
    "out1 = OutQuestion question # out" "\<forall>p. OutCorrect p \<notin> set out" by blast
  then show ?thesis using points_awarded_none [of out] by (simp add: points_awarded_def)
qed

lemma game_rounds_single_score:
  assumes "game_rounds n i env state = (state', out)" "\<not> num_players (config state) > 1"
  shows "score (stats state') = score (stats state) + points_awarded out"
  using assms
proof (induction rule: game_rounds_induct)
  case (Done i state)
  then show ?case by (simp add: points_awarded_def)
next
  case (NoQuestion i state)
  then show ?case by (simp add: points_awarded_def)
next
  case (Quit i state question state1 out1)
  then show ?case
    using game_ask_question_frame(2) [OF Quit(2)] game_ask_question_points [OF Quit(2)]
    by (simp add: points_awarded_append) (simp add: points_awarded_def)
next
  case (Round i state question a state1 out1 state2 out2 state4 out4)
  note fr1 = game_ask_question_frame [OF Round(2)]
  note fr2 = update_stats_frame [OF Round(4)]
  have np1: "\<not> num_players (config state1) > 1" using fr1(1) Round.prems by simp
  have np2: "\<not> num_players (config state2) > 1" using fr2(1) np1 by simp
  have s2: "score (stats state2) = score (stats state) + points_awarded out2"
    using update_stats_single(2) [OF Round(4) np1] fr1(2) by simp
  have "score (stats state4) = score (stats state2) + points_awarded out4"
    using Round.IH np2 by simp
  with s2 np2 game_ask_question_points [OF Round(2)] show ?case
    by (simp add: points_awarded_append) (simp add: points_awarded_def)
qed

lemma sum_scores_update:
  "i < length ps \<Longrightarrow>
   sum_list (map p_score (ps[i := p])) = sum_list (map p_score ps) - p_score (ps ! i) + p_score p"
proof (induction ps arbitrary: i)
  case Nil
  then show ?case by simp
next
  case (Cons x ps)
  then show ?case by (cases i) simp_all
qed

lemma update_stats_multi_scores:
  assumes upd: "update_stats state question a = (state2, out2)"
    and np: "num_players (config state) > 1"
    and cp: "0 \<le> current_player state" "current_player state < num_players (config state)"
    and len: "length (players state) = nat (num_players (config state))"
  shows "sum_list (map p_score (players state2))
     = sum_list (map p_score (players state)) + points_awarded out2"
proof -
  have cur: "game_get_current_player state = Some (nat (current_player state))"
    using np cp by (simp add: game_get_current_player_def)
  have lt: "nat (current_player state) < length (players state)"
    using cp len by simp
  show ?thesis
    using upd np cur
    by (auto simp: update_stats_def Let_def points_awarded_def sum_scores_update [OF lt]
        split: if_splits)
qed

lemma game_rounds_multi_scores:
  assumes "game_rounds n i env state = (state', out)"
    and "num_players (config state) > 1"
    and "0 \<le> current_player state" "current_player state < num_players (config state)"
    and "length (players state) = nat (num_players (config state))"
  shows "sum_list (map p_score (players state'))
     = sum_list (map p_score (players state)) + points_awarded out"
  using assms
proof (induction rule: game_rounds_induct)
  case (Done i state)
  then show ?case by (simp add: points_awarded_def)
next
  case (NoQuestion i state)
  then show ?case by (simp add: points_awarded_def)
next
  case (Quit i state question state1 out1)
  then show ?case
    using game_ask_question_frame(3) [OF Quit(2)] game_ask_question_points [OF Quit(2)]
    by (simp add: points_awarded_append) (simp add: points_awarded_def)
next
  case (Round i state question a state1 out1 state2 out2 state4 out4)
  note fr1 = game_ask_question_frame [OF Round(2)]
  note fr2 = update_stats_frame [OF Round(4)]
  have np1: "num_players (config state1) > 1" using fr1(1) Round.prems by simp
  have np2: "num_players (config state2) > 1" using fr2(1) np1 by simp
  have s2: "sum_list (map p_score (players state2))
      = sum_list (map p_score (players state)) + points_awarded out2"
    using update_stats_multi_scores [OF Round(4) np1] fr1 Round.prems by simp
  let ?s3 = "game_next_player state2"
  have cp2: "0 \<le> current_player state2" using fr1(4) fr2(2) Round.prems by simp
  have cp3: "current_player ?s3 = (current_player state2 + 1) mod num_players (config state2)"
    using game_next_player_index [OF np2 cp2] .
  have inv3: "0 \<le> current_player ?s3" "current_player ?s3 < num_players (config ?s3)"
    "length (players ?s3) = nat (num_players (config ?s3))" "num_players (config ?s3) > 1"
    using cp3 np2 fr1(1,3) fr2(1,5) Round.prems by (simp_all add: game_next_player_frame)
  have "sum_list (map p_score (players state4))
      = sum_list (map p_score (players ?s3)) + points_awarded out4"
    using Round.IH np2 inv3 by simp
  with s2 np2 game_ask_question_points [OF Round(2)] show ?case
    by (simp add: points_awarded_append game_next_player_frame) (simp add: points_awarded_def)
qed

lemma game_init_scores:
  assumes "game_init bank cfg = Some state0"
  shows "sum_list (map p_score (players state0)) = 0"
  using assms
  by (auto simp: game_init_def game_init_players_def Let_def new_player_def sum_list_replicate
      split: if_splits option.splits)

text \<open>
  Claim C10. \<open>game_run\<close> returns the score of the aggregate statistics record
  \<open>stats\<close>. With one player that is the score accumulated: the sum of the points
  awarded. With several players it is always 0: a round books its points on the
  player's entry of \<open>players\<close>, whose scores add up to the points awarded, and
  never on \<open>stats\<close>, which stays as \<open>game_init\<close> left it.
\<close>

theorem game_run_return_value:
  assumes init: "game_init bank cfg = Some state0"
  shows "fst (game_run state0 env) = score (stats (fst (snd (game_run state0 env))))
     \<and> (num_players cfg \<le> 1 \<longrightarrow>
          fst (game_run state0 env) = points_awarded (snd (snd (game_run state0 env))))
     \<and> (num_players cfg > 1 \<longrightarrow>
          fst (game_run state0 env) = 0
          \<and> stats (fst (snd (game_run state0 env))) = stats state0
          \<and> sum_list (map p_score (players (fst (snd (game_run state0 env)))))
              = points_awarded (snd (snd (game_run state0 env))))"
proof -
  note st = game_init_state [OF init]
  obtain state1 out1 where
    rounds: "game_rounds (nat (if num_players (config state0) > 1
                       then questions_per_game (config state0) * num_players (config state0)
                       else questions_per_game (config state0))) 0 env
       (state0\<lparr>game_active := True\<rparr>) = (state1, out1)" and
    run: "game_run state0 env
       = (score (stats state1), state1\<lparr>game_active := False\<rparr>,
          [OutWelcome] @ out1 @ [OutReport (game_display_stats (state1\<lparr>game_active := False\<rparr>))])"
    by (rule game_run_parts)
  have pts: "points_awarded (snd (snd (game_run state0 env))) = points_awarded out1"
    by (simp add: run points_awarded_def)
  have single: "score (stats state1) = points_awarded out1" if "num_players cfg \<le> 1"
    using game_rounds_single_score [OF rounds] that st(1,4) by simp
  have multi: "stats state1 = stats state0" if "num_players cfg > 1"
    using game_rounds_multi_stats [OF rounds] that st(1) by simp
  have scores: "sum_list (map p_score (players state1)) = points_awarded out1"
    if "num_players cfg > 1"
    using game_rounds_multi_scores [OF rounds] that st(1,2,5) game_init_scores [OF init]
    by simp
  show ?thesis using single multi scores pts st(4) by (simp add: run)
qed

theorem game_run_return_value_witness:
  "game_init [capital_question] (main_config 2) = Some (start_state 2)
   \<and> fst (game_run (start_state 2) (quit_after 3)) = 0
   \<and> points_awarded (snd (snd (game_run (start_state 2) (quit_after 3)))) = 72"
proof -
  have init: "game_init [capital_question] (main_config 2) = Some (start_state 2)"
    by code_simp
  have n: "num_players (main_config 2) = 2" by (simp add: main_config_def)
  have pts: "points_awarded (snd (snd (game_run (start_state 2) (quit_after 3)))) = 72"
    by code_simp
  from game_run_return_value [OF init, of "quit_after 3"]
  have "num_players (main_config 2) > 1 \<longrightarrow> fst (game_run (start_state 2) (quit_after 3)) = 0"
    by blast
  with n have "fst (game_run (start_state 2) (quit_after 3)) = 0" by simp
  with init pts show ?thesis by simp
qed

text \<open>The same three correct answers in a game of one player are returned as 72.\<close>

lemma game_run_single_player_example:
  "fst (game_run (start_state 1) (quit_after 3)) = 72"
  by code_simp

section \<open>Lines read during a round\<close>

lemma thread_run_ended: "thread t = NoThread \<Longrightarrow> thread_run t = t"
  by (simp add: thread_run.simps)

lemma thread_run_alive: "thread t \<noteq> NoThread \<Longrightarrow> thread_run t = thread_run (thread_step t)"
  by (subst thread_run.simps) simp

lemma thread_step_ended: "thread t = NoThread \<Longrightarrow> thread_step t = t"
  by (simp add: thread_step_def)

lemma thread_step_not_created: "thread (thread_step t) \<noteq> Created"
  by (cases "thread t") (simp_all add: thread_step_def)

lemma thread_step_remaining_le:
  "(thread t = Created \<longrightarrow> remaining t = seconds t) \<Longrightarrow> remaining (thread_step t) \<le> remaining t"
  by (cases "thread t") (simp_all add: thread_step_def thread_exit_def)

lemma thread_step_expired:
  "(thread t = Created \<longrightarrow> \<not> expired t) \<Longrightarrow> expired t \<Longrightarrow> expired (thread_step t)"
  by (cases "thread t") (simp_all add: thread_step_def thread_exit_def)

lemma leaves_open_cases:
  assumes "leaves_open e"
  obtains "e = Tick" | sel where "e = Poll sel"
  using assms by (cases e) simp_all

lemma countdown_after_mono:
  assumes "\<forall>e\<in>set es. leaves_open e"
    and "thread t = Created \<longrightarrow> remaining t = seconds t \<and> \<not> expired t"
  shows "remaining (countdown_after es t) \<le> remaining t"
    and "expired t \<longrightarrow> expired (countdown_after es t)"
  using assms
proof (induction es t rule: countdown_after.induct)
  case (2 es t)
  note nc = thread_step_not_created [of t]
  {
    case 1
    from 1 have "remaining (countdown_after es (thread_step t)) \<le> remaining (thread_step t)"
      using "2.IH"(1) nc by simp
    moreover from 1(2) have "remaining (thread_step t) \<le> remaining t"
      by (intro thread_step_remaining_le) simp
    ultimately show ?case by simp
  next
    case 2
    from 2 have "expired (thread_step t) \<longrightarrow> expired (countdown_after es (thread_step t))"
      using "2.IH"(2) nc by simp
    moreover from 2(2) have "expired t \<longrightarrow> expired (thread_step t)"
      using thread_step_expired [of t] by blast
    ultimately show ?case by simp
  }
qed simp_all

lemma poll_input_open:
  assumes "\<forall>e\<in>set pre. leaves_open e"
    and "thread t = Created \<longrightarrow> remaining t = seconds t \<and> \<not> expired t"
    and "timer_get_remaining (countdown_after pre t) > 0"
    and "\<not> timer_is_expired (countdown_after pre t)"
  shows "poll_input t (pre @ es)
     = (case poll_input (countdown_after pre t) es of
          (answer, t1, out) \<Rightarrow> (answer, t1, reprompts pre @ out))"
  using assms
proof (induction pre arbitrary: t)
  case Nil
  then show ?case by (simp add: reprompts_def)
next
  case (Cons e pre)
  from Cons.prems(1) have opn: "leaves_open e" and rest: "\<forall>e\<in>set pre. leaves_open e"
    by simp_all
  from opn show ?case
  proof (cases e rule: leaves_open_cases)
    case 1
    have "poll_input (thread_step t) (pre @ es)
       = (case poll_input (countdown_after pre (thread_step t)) es of
            (answer, t1, out) \<Rightarrow> (answer, t1, reprompts pre @ out))"
      using rest thread_step_not_created [of t] Cons.prems(3,4) 1
      by (intro Cons.IH) simp_all
    with 1 show ?thesis by (simp add: reprompts_def)
  next
    case (2 sel)
    from countdown_after_mono [OF rest Cons.prems(2)] Cons.prems(3,4) 2
    have r: "timer_get_remaining t > 0" and x: "\<not> timer_is_expired t"
      by (auto simp: timer_get_remaining_def timer_is_expired_def)
    have ih: "poll_input t (pre @ es)
       = (case poll_input (countdown_after pre t) es of
            (answer, t1, out) \<Rightarrow> (answer, t1, reprompts pre @ out))"
      using rest Cons.prems(2-4) 2 by (intro Cons.IH) simp_all
    show ?thesis
    proof (cases sel)
      case None
      with 2 r x ih show ?thesis by (simp add: reprompts_def)
    next
      case (Some pending)
      show ?thesis
      proof (cases "read_input MAX_INPUT_LEN pending")
        case (Inl err)
        with 2 Some r x ih show ?thesis by (simp add: reprompts_def)
      next
        case (Inr line)
        with opn 2 Some have "\<not> is_quit (sanitize_input line)"
          "answer_of (sanitize_input line) = None"
          by simp_all
        with 2 Some Inr r x ih show ?thesis
          by (simp add: reprompts_def with_output_def split: prod.splits)
      qed
    qed
  qed
qed



text \<open>
  When the time per question is positive, the countdown thread of a round finds the
  timer as \<open>timer_reset\<close> left it.
\<close>

lemma timer_at_start_fresh:
  assumes "0 < time_per_question (config state)"
  shows "thread (timer_at_start state) = Created \<longrightarrow>
     remaining (timer_at_start state) = seconds (timer_at_start state)
     \<and> \<not> expired (timer_at_start state)"
  using assms by (simp add: timer_at_start_def timer_reset_def timer_start_def Let_def)






lemma poll_input_quit:
  assumes "timer_get_remaining t > 0" "\<not> timer_is_expired t"
    and "read_input MAX_INPUT_LEN pending = Inr line" "is_quit (sanitize_input line)"
  shows "poll_input t (Poll (Some pending) # es) = (- 1, timer_stop t, [])"
  using assms by simp



lemma game_ask_question_timed:
  assumes "use_timer (config state)"
  shows "game_ask_question state question env
     = (case poll_input (timer_at_start state) (events env) of
          (answer, t3, out) \<Rightarrow> (answer, state\<lparr>timer := t3\<rparr>, OutQuestion question # out))"
  using assms by (simp add: game_ask_question_def timer_at_start_def Let_def)


section \<open>Quitting\<close>

lemma game_ask_question_quit_timed:
  assumes "read_input MAX_INPUT_LEN pending = Inr line" "is_quit (sanitize_input line)"
    and "use_timer (config state)" "0 < time_per_question (config state)"
    and "events env = pre @ Poll (Some pending) # es"
    and "\<forall>e\<in>set pre. leaves_open e"
    and "timer_get_remaining (countdown_after pre (timer_at_start state)) > 0"
    and "\<not> timer_is_expired (countdown_after pre (timer_at_start state))"
  shows "game_ask_question state question env
     = (- 1, state\<lparr>timer := timer_stop (countdown_after pre (timer_at_start state))\<rparr>,
        OutQuestion question # reprompts pre)"
proof -
  let ?t = "countdown_after pre (timer_at_start state)"
  have "poll_input ?t (Poll (Some pending) # es) = (- 1, timer_stop ?t, [])"
    using assms(7,8,1,2) by (rule poll_input_quit)
  with poll_input_open [OF assms(6) timer_at_start_fresh [OF assms(4)] assms(7,8),
      of "Poll (Some pending) # es"]
  have "poll_input (timer_at_start state) (events env) = (- 1, timer_stop ?t, reprompts pre)"
    unfolding assms(5) by simp
  then show ?thesis using assms(3) by (simp add: game_ask_question_timed)
qed

lemma read_answer_quit:
  assumes "read_input MAX_INPUT_LEN pending = Inr line" "is_quit (sanitize_input line)"
  shows "read_answer pending = - 1"
  using assms by (simp add: read_answer_def)

text \<open>
  The rounds that were played to their end are a prefix of the session: the game loop
  goes on from the state they leave.
\<close>

lemma game_rounds_played:
  assumes "game_rounds k i env state = (state_k, out_k)" "rounds_completed out_k = k"
  shows "game_rounds (k + m) i env state
     = (case game_rounds m (i + k) env state_k of (state', out) \<Rightarrow> (state', out_k @ out))"
  using assms
proof (induction k arbitrary: i state state_k out_k)
  case 0
  then show ?case by (simp split: prod.splits)
next
  case (Suc k)
  let ?f = "if difficulty (config state) \<ge> 0 then difficulty (config state) else - 1"
  show ?case
  proof (cases "question_bank_get_random (question_bank state) ?f (rand_value (env i))")
    case None
    from game_rounds_no_question [where env = env and i = i and n = k, OF None] Suc.prems
    show ?thesis by (simp add: rounds_completed_def)
  next
    case (Some question)
    obtain a state1 out1 where ask: "game_ask_question state question (env i) = (a, state1, out1)"
      by (cases "game_ask_question state question (env i)") auto
    from game_ask_question_out [OF ask] have "OutContinue \<notin> set out1" by auto
    then have c1: "rounds_completed out1 = 0" by (rule rounds_completed_none)
    show ?thesis
    proof (cases "a = - 1")
      case True
      from game_rounds_quit [where env = env and i = i and n = k, OF Some ask [unfolded True]]
        Suc.prems
      have "out_k = out1 @ [OutQuit]" by simp
      with c1 Suc.prems(2) show ?thesis
        by (simp add: rounds_completed_append) (simp add: rounds_completed_def)
    next
      case False
      obtain state2 out2 where upd: "update_stats state1 question a = (state2, out2)"
        by (cases "update_stats state1 question a") auto
      let ?s3 = "if num_players (config state2) > 1 then game_next_player state2 else state2"
      let ?out3 = "if num_players (config state2) > 1
               then [OutScores (map p_score (take (nat (num_players (config state2)))
                                                (players state2)))]
               else []"
      obtain state4 out4 where rest: "game_rounds k (i + 1) env ?s3 = (state4, out4)"
        by (cases "game_rounds k (i + 1) env ?s3") auto
      from game_rounds_Suc [where env = env and i = i, OF Some ask False upd rest] Suc.prems(1)
      have res: "state_k = state4" "out_k = out1 @ out2 @ ?out3 @ [OutContinue] @ out4"
        by simp_all
      have c2: "rounds_completed out2 = 0"
        using update_stats_frame(6) [OF upd] by (rule rounds_completed_none)
      have c3: "rounds_completed ?out3 = 0" by (simp add: rounds_completed_def)
      have "rounds_completed out_k = Suc (rounds_completed out4)"
        unfolding res(2) rounds_completed_append c1 c2 c3 by (simp add: rounds_completed_def)
      with Suc.prems(2) have c4: "rounds_completed out4 = k" by simp
      obtain state5 out5 where
        after: "game_rounds m (i + 1 + k) env state4 = (state5, out5)"
        by (cases "game_rounds m (i + 1 + k) env state4") auto
      from Suc.IH [OF rest c4] after
      have rest': "game_rounds (k + m) (i + 1) env ?s3 = (state5, out4 @ out5)" by simp
      from game_rounds_Suc [where env = env and i = i, OF Some ask False upd rest']
      have "game_rounds (Suc (k + m)) i env state
          = (state5, out1 @ out2 @ ?out3 @ [OutContinue] @ out4 @ out5)" .
      moreover have "i + Suc k = i + 1 + k" by simp
      ultimately show ?thesis using res after by simp
    qed
  qed
qed

lemma game_display_stats_frame:
  "game_display_stats (state\<lparr>timer := t\<rparr>) = game_display_stats state"
  "game_display_stats (state\<lparr>game_active := b\<rparr>) = game_display_stats state"
  by (simp_all add: game_display_stats_def)

text \<open>A session in which the first \<open>k\<close> rounds are played to their end and the next is a Quit.\<close>

lemma game_run_quit:
  fixes state :: GameState and env :: "nat \<Rightarrow> round_env"
  assumes before: "game_rounds k 0 env (state\<lparr>game_active := True\<rparr>) = (state_k, out_k)"
    and played: "rounds_completed out_k = k"
    and more: "k < nat (if num_players (config state) > 1
                        then questions_per_game (config state) * num_players (config state)
                        else questions_per_game (config state))"
    and sel: "question_bank_get_random (question_bank state_k)
                (if difficulty (config state_k) \<ge> 0 then difficulty (config state_k) else - 1)
                (rand_value (env k)) = Some question"
    and ask: "game_ask_question state_k question (env k) = (- 1, state1, out1)"
  shows "game_run state env
     = (score (stats state1), state1\<lparr>game_active := False\<rparr>,
        [OutWelcome] @ out_k @ out1
          @ [OutQuit, OutReport (game_display_stats (state1\<lparr>game_active := False\<rparr>))])"
proof -
  define n where "n = nat (if num_players (config state) > 1
                 then questions_per_game (config state) * num_players (config state)
                 else questions_per_game (config state))"
  from more have "k < n" by (simp only: n_def)
  then have "\<exists>m. n = Suc (k + m)" by (rule less_imp_Suc_add)
  then obtain m where n: "n = k + Suc m" by auto
  from game_rounds_quit [where env = env and i = k and n = m, OF sel ask]
  have "game_rounds (Suc m) (0 + k) env state_k = (state1, out1 @ [OutQuit])" by simp
  with game_rounds_played [OF before played, of "Suc m"]
  have "game_rounds (k + Suc m) 0 env (state\<lparr>game_active := True\<rparr>)
      = (state1, out_k @ out1 @ [OutQuit])"
    by simp
  then have "game_rounds n 0 env (state\<lparr>game_active := True\<rparr>)
      = (state1, out_k @ out1 @ [OutQuit])"
    by (simp only: n)
  then show ?thesis unfolding game_run_def Let_def n_def [symmetric] by simp
qed

text \<open>
  Claim C3. A line whose first character after trimming is \<open>q\<close> or \<open>Q\<close> makes the
  round a Quit: the polling loop returns -1 at whichever iteration reads it, and so
  does the read of a game without timer. On Quit the session ends at once. Let the
  first \<open>k\<close> rounds of a session be played to their end and let the next round, not
  after the last one of the session, read such a line, in a timed game after any steps
  of the countdown and any lines that were answered by the reprompt, before the time
  has run out. Then \<open>game_run\<close> returns the score, the statistics, the players and the
  turn as the \<open>k\<close> rounds left them, only the timer being stopped; and after the output
  of the \<open>k\<close> rounds it prints the question of the round, the reprompts, the quit
  message and the final report of the state the \<open>k\<close> rounds left, and no further
  question.
\<close>

theorem quit_ends_session:
  fixes state :: GameState and env :: "nat \<Rightarrow> round_env" and k :: nat
  defines "state_k \<equiv> fst (game_rounds k 0 env (state\<lparr>game_active := True\<rparr>))"
    and "out_k \<equiv> snd (game_rounds k 0 env (state\<lparr>game_active := True\<rparr>))"
  assumes rd: "read_input MAX_INPUT_LEN pending = Inr line"
    and q: "sanitize_input line \<noteq> []"
      "hd (sanitize_input line) = CHR ''q'' \<or> hd (sanitize_input line) = CHR ''Q''"
    and played: "rounds_completed out_k = k"
    and more: "k < nat (if num_players (config state) > 1
                        then questions_per_game (config state) * num_players (config state)
                        else questions_per_game (config state))"
    and sel: "question_bank_get_random (question_bank state_k)
                (if difficulty (config state_k) \<ge> 0 then difficulty (config state_k) else - 1)
                (rand_value (env k)) = Some question"
  shows "(timer_get_remaining t > 0 \<and> \<not> timer_is_expired t \<longrightarrow>
           poll_input t (Poll (Some pending) # es) = (- 1, timer_stop t, []))
    \<and> read_answer pending = - 1
    \<and> (use_timer (config state) \<and> 0 < time_per_question (config state)
         \<and> events (env k) = pre @ Poll (Some pending) # es
         \<and> (\<forall>e\<in>set pre. leaves_open e)
         \<and> timer_get_remaining (countdown_after pre (timer_at_start state_k)) > 0
         \<and> \<not> timer_is_expired (countdown_after pre (timer_at_start state_k))
        \<longrightarrow> game_run state env
              = (score (stats state_k),
                 state_k\<lparr>timer := timer_stop (countdown_after pre (timer_at_start state_k)),
                          game_active := False\<rparr>,
                 [OutWelcome] @ out_k @ [OutQuestion question] @ reprompts pre
                   @ [OutQuit, OutReport (game_display_stats state_k)]))
    \<and> (\<not> use_timer (config state) \<and> stdin_pending (env k) = pending
        \<longrightarrow> game_run state env
              = (score (stats state_k), state_k\<lparr>game_active := False\<rparr>,
                 [OutWelcome] @ out_k
                   @ [OutQuestion question, OutQuit, OutReport (game_display_stats state_k)]))"
proof (intro conjI impI)
  from q have quit: "is_quit (sanitize_input line)" by (simp add: is_quit_def)
  have before: "game_rounds k 0 env (state\<lparr>game_active := True\<rparr>) = (state_k, out_k)"
    by (simp add: state_k_def out_k_def)
  from game_rounds_config [OF before] have cfg: "config state_k = config state" by simp
  {
    assume "timer_get_remaining t > 0 \<and> \<not> timer_is_expired t"
    then show "poll_input t (Poll (Some pending) # es) = (- 1, timer_stop t, [])"
      using rd quit by (simp add: poll_input_quit)
  next
    show "read_answer pending = - 1" using rd quit by (rule read_answer_quit)
  next
    let ?t = "timer_stop (countdown_after pre (timer_at_start state_k))"
    assume a: "use_timer (config state) \<and> 0 < time_per_question (config state)
         \<and> events (env k) = pre @ Poll (Some pending) # es
         \<and> (\<forall>e\<in>set pre. leaves_open e)
         \<and> timer_get_remaining (countdown_after pre (timer_at_start state_k)) > 0
         \<and> \<not> timer_is_expired (countdown_after pre (timer_at_start state_k))"
    with cfg have ask: "game_ask_question state_k question (env k)
       = (- 1, state_k\<lparr>timer := ?t\<rparr>, OutQuestion question # reprompts pre)"
      by (intro game_ask_question_quit_timed [OF rd quit]) simp_all
    from game_run_quit [OF before played more sel ask]
    show "game_run state env
              = (score (stats state_k),
                 state_k\<lparr>timer := ?t, game_active := False\<rparr>,
                 [OutWelcome] @ out_k @ [OutQuestion question] @ reprompts pre
                   @ [OutQuit, OutReport (game_display_stats state_k)])"
      by (simp add: game_display_stats_frame)
  next
    assume a: "\<not> use_timer (config state) \<and> stdin_pending (env k) = pending"
    with cfg have ask: "game_ask_question state_k question (env k)
        = (- 1, state_k, [OutQuestion question])"
      using read_answer_quit [OF rd quit] by (simp add: game_ask_question_def)
    from game_run_quit [OF before played more sel ask]
    show "game_run state env
              = (score (stats state_k), state_k\<lparr>game_active := False\<rparr>,
                 [OutWelcome] @ out_k
                   @ [OutQuestion question, OutQuit, OutReport (game_display_stats state_k)])"
      by (simp add: game_display_stats_frame)
  }
qed

theorem quit_ends_session_witness:
  "read_input MAX_INPUT_LEN (''q'' @ [CHR 0x0A]) = Inr ''q''
   \<and> sanitize_input ''q'' = ''q''
   \<and> events (quit_in_third 2)
       = [Poll None, Tick, Tick, Poll (Some (''9'' @ [CHR 0x0A]))]
           @ Poll (Some (''q'' @ [CHR 0x0A])) # []
   \<and> fst (game_run (start_state 1) quit_in_third) = 48
   \<and> stats (fst (snd (game_run (start_state 1) quit_in_third)))
       = \<lparr>total_questions = 2, correct_answers = 2, wrong_answers = 0, timeouts = 0,
          score = 48\<rparr>
   \<and> snd (snd (game_run (start_state 1) quit_in_third))
       = [OutWelcome,
          OutQuestion capital_question, OutCorrect 24, OutContinue,
          OutQuestion capital_question, OutCorrect 24, OutContinue,
          OutQuestion capital_question, OutInvalidInput, OutQuit,
          OutReport (SinglePlayerReport
            \<lparr>total_questions = 2, correct_answers = 2, wrong_answers = 0, timeouts = 0,
             score = 48\<rparr>)]"
proof -
  let ?pre = "[Poll None, Tick, Tick, Poll (Some (''9'' @ [CHR 0x0A]))]"
  let ?before = "game_rounds 2 0 quit_in_third ((start_state 1)\<lparr>game_active := True\<rparr>)"
  have rd: "read_input MAX_INPUT_LEN (''q'' @ [CHR 0x0A]) = Inr ''q''" by code_simp
  have s: "sanitize_input ''q'' = ''q''" by code_simp
  have q: "sanitize_input ''q'' \<noteq> []"
    "hd (sanitize_input ''q'') = CHR ''q'' \<or> hd (sanitize_input ''q'') = CHR ''Q''"
    by (simp_all add: s)
  have out: "snd ?before
       = [OutQuestion capital_question, OutCorrect 24, OutContinue,
          OutQuestion capital_question, OutCorrect 24, OutContinue]"
    by code_simp
  have st: "stats (fst ?before)
       = \<lparr>total_questions = 2, correct_answers = 2, wrong_answers = 0, timeouts = 0,
          score = 48\<rparr>"
    by code_simp
  have np: "\<not> num_players (config (fst ?before)) > 1" by code_simp
  have played: "rounds_completed (snd ?before) = 2" by (simp add: out rounds_completed_def)
  have more: "2 < nat (if num_players (config (start_state 1)) > 1
                        then questions_per_game (config (start_state 1))
                               * num_players (config (start_state 1))
                        else questions_per_game (config (start_state 1)))"
    by code_simp
  have sel: "question_bank_get_random (question_bank (fst ?before))
                (if difficulty (config (fst ?before)) \<ge> 0
                 then difficulty (config (fst ?before)) else - 1)
                (rand_value (quit_in_third 2)) = Some capital_question"
    by code_simp
  have tm: "use_timer (config (start_state 1))" "0 < time_per_question (config (start_state 1))"
    by code_simp+
  have ev: "events (quit_in_third 2) = ?pre @ Poll (Some (''q'' @ [CHR 0x0A])) # []"
    by code_simp
  have opn: "\<forall>e\<in>set ?pre. leaves_open e" by code_simp
  have r: "timer_get_remaining (countdown_after ?pre (timer_at_start (fst ?before))) > 0"
    "\<not> timer_is_expired (countdown_after ?pre (timer_at_start (fst ?before)))"
    by code_simp+
  have rp: "reprompts ?pre = [OutInvalidInput]" by code_simp
  from quit_ends_session [OF rd q played more sel, where pre = ?pre and es = "[]"]
    tm ev opn r
  have run: "game_run (start_state 1) quit_in_third
      = (score (stats (fst ?before)),
         (fst ?before)\<lparr>timer := timer_stop (countdown_after ?pre (timer_at_start (fst ?before))),
                        game_active := False\<rparr>,
         [OutWelcome] @ snd ?before @ [OutQuestion capital_question] @ reprompts ?pre
           @ [OutQuit, OutReport (game_display_stats (fst ?before))])"
    by blast
  have rep: "game_display_stats (fst ?before) = SinglePlayerReport (stats (fst ?before))"
    using np by (simp add: game_display_stats_def)
  have "fst (game_run (start_state 1) quit_in_third) = 48"
    "stats (fst (snd (game_run (start_state 1) quit_in_third)))
       = \<lparr>total_questions = 2, correct_answers = 2, wrong_answers = 0, timeouts = 0,
          score = 48\<rparr>"
    "snd (snd (game_run (start_state 1) quit_in_third))
       = [OutWelcome,
          OutQuestion capital_question, OutCorrect 24, OutContinue,
          OutQuestion capital_question, OutCorrect 24, OutContinue,
          OutQuestion capital_question, OutInvalidInput, OutQuit,
          OutReport (SinglePlayerReport
            \<lparr>total_questions = 2, correct_answers = 2, wrong_answers = 0, timeouts = 0,
             score = 48\<rparr>)]"
    unfolding run by (simp_all add: out st rp [simplified] rep)
  with rd s ev show ?thesis by blast
qed

section \<open>The range of a choice\<close>




text \<open>A timed game that \<open>game_init\<close> has set up has a positive time per question.\<close>

lemma game_init_time_positive:
  assumes "game_init bank cfg = Some state" "use_timer (config state)"
  shows "0 < time_per_question (config state)"
  using assms
  by (auto simp: game_init_def game_init_players_def timer_init_def Let_def
      split: if_splits option.splits)





section \<open>The countdown\<close>

lemma caller_inv_init: "timer_init d = Some t0 \<Longrightarrow> caller_inv Idle t0"
  by (auto simp: timer_init_def timer_inv_def split: if_splits)

lemma caller_inv_timer_inv: "caller_inv c t \<Longrightarrow> timer_inv t"
  by (cases c) simp_all

lemma timer_inv_thread_step:
  assumes "timer_inv t"
  shows "timer_inv (thread_step t)" "seconds (thread_step t) = seconds t"
    "remaining (thread_step t) \<le> remaining t"
    "expired t \<longrightarrow> expired (thread_step t)"
    "expired (thread_step t) \<and> \<not> expired t \<longrightarrow> thread t \<noteq> Created"
  using assms
  by (cases "thread t"; simp add: thread_step_def timer_inv_def thread_exit_def)+

lemma timer_inv_orphan_step: "timer_inv t \<Longrightarrow> orphan_step i t = t"
  by (simp add: orphan_step_def timer_inv_def)

text \<open>The thread that is joined ends, and the steps it takes on the way keep the invariant.\<close>

lemma timer_inv_thread_run:
  assumes "timer_inv t"
  shows "timer_inv (thread_run t) \<and> thread (thread_run t) = NoThread
     \<and> seconds (thread_run t) = seconds t \<and> remaining (thread_run t) \<le> remaining t
     \<and> (expired t \<longrightarrow> expired (thread_run t))"
  using assms
proof (induction t rule: thread_run.induct)
  case (1 t)
  show ?case
  proof (cases "thread t = NoThread")
    case True
    with "1.prems" show ?thesis by (simp add: thread_run_ended)
  next
    case False
    note step = timer_inv_thread_step [OF "1.prems"]
    from "1.IH" [OF False step(1)] step(2-4) show ?thesis
      unfolding thread_run_alive [OF False] by auto
  qed
qed

lemma timer_inv_stop:
  assumes "timer_inv t"
  shows "timer_inv (timer_stop t)" "thread (timer_stop t) = NoThread"
    "seconds (timer_stop t) = seconds t" "remaining (timer_stop t) \<le> remaining t"
    "expired t \<longrightarrow> expired (timer_stop t)" "\<not> running (timer_stop t)"
proof -
  from assms have inv: "timer_inv (t\<lparr>running := False\<rparr>)" by (simp add: timer_inv_def)
  note run = timer_inv_thread_run [OF inv]
  from run show "timer_inv (timer_stop t)" "thread (timer_stop t) = NoThread"
    "seconds (timer_stop t) = seconds t" "remaining (timer_stop t) \<le> remaining t"
    "expired t \<longrightarrow> expired (timer_stop t)"
    by (simp_all add: timer_stop_def)
  from run show "\<not> running (timer_stop t)"
    by (auto simp: timer_stop_def timer_inv_def)
qed

lemma timer_inv_reset:
  assumes "timer_inv t" "0 < secs" "thread t = NoThread \<or> running t"
  shows "caller_inv Armed (snd (timer_reset t secs))"
    "remaining (snd (timer_reset t secs)) = secs" "seconds (snd (timer_reset t secs)) = secs"
    "\<not> expired (snd (timer_reset t secs))" "\<not> running (snd (timer_reset t secs))"
proof -
  let ?t1 = "if running t then timer_stop t else t"
  note stop = timer_inv_stop [OF assms(1)]
  from assms(1,3) stop have t1: "timer_inv ?t1" "thread ?t1 = NoThread" "\<not> running ?t1"
    by (auto simp: timer_inv_def)
  have r: "snd (timer_reset t secs) = ?t1\<lparr>seconds := secs, remaining := secs, expired := False\<rparr>"
    using assms(2) by (simp add: timer_reset_def Let_def)
  from t1 assms(2) show "caller_inv Armed (snd (timer_reset t secs))"
    unfolding r by (simp add: timer_inv_def)
  show "remaining (snd (timer_reset t secs)) = secs" "seconds (snd (timer_reset t secs)) = secs"
    "\<not> expired (snd (timer_reset t secs))"
    unfolding r by simp_all
  from t1(3) show "\<not> running (snd (timer_reset t secs))" unfolding r by simp
qed

lemma caller_inv_start:
  assumes "caller_inv Armed t"
  shows "caller_inv Polling (snd (timer_start t))" "thread (snd (timer_start t)) = Created"
    "remaining (snd (timer_start t)) = remaining t" "\<not> running (snd (timer_start t))"
    "\<not> expired (snd (timer_start t))"
  using assms by (auto simp: timer_start_def timer_inv_def)

text \<open>Every step the game makes keeps what holds at the caller's place.\<close>

lemma caller_inv_step:
  assumes "caller_inv c t" "caller_step c t op = Some c1"
  shows "caller_inv c1 (timer_apply op t)"
proof (cases op)
  case TimerStart
  with assms have c: "c = Armed" "c1 = Polling" by (cases c; simp)+
  with assms(1) have "caller_inv Armed t" by simp
  then have "caller_inv Polling (snd (timer_start t))" by (rule caller_inv_start(1))
  with c TimerStart show ?thesis by simp
next
  case ThreadStep
  with assms(2) have c1: "c1 = c" by simp
  note inv = caller_inv_timer_inv [OF assms(1)]
  note step = timer_inv_thread_step(1) [OF inv]
  from assms(1) have "caller_inv c (thread_step t)"
  proof (cases c)
    case Polling
    with assms(1) inv step show ?thesis
      by (cases "thread t") (auto simp: thread_step_def thread_exit_def timer_inv_def)
  qed (simp_all add: thread_step_ended)
  with c1 ThreadStep show ?thesis by simp
next
  case (OrphanStep i)
  with assms timer_inv_orphan_step [OF caller_inv_timer_inv [OF assms(1)], of i]
  show ?thesis by simp
next
  case TimerStop
  with assms have "c = Polling" "c1 = Idle" by (cases c; simp)+
  with TimerStop timer_inv_stop(1,2) [OF caller_inv_timer_inv [OF assms(1)]]
  show ?thesis by simp
next
  case (TimerReset secs)
  with assms(2) have c1: "c1 = Armed" and pos: "0 < secs" and
    at: "c = Idle \<or> c = Polling \<and> remaining t \<le> 0"
    by (cases c; simp split: if_splits)+
  from at assms(1) have "thread t = NoThread \<or> running t"
    by (cases "thread t") (auto simp: timer_inv_def)
  from timer_inv_reset(1) [OF caller_inv_timer_inv [OF assms(1)] pos this] c1 TimerReset
  show ?thesis by simp
qed

lemma timer_run_append: "timer_run (ops @ ops') t = timer_run ops' (timer_run ops t)"
  by (simp add: timer_run_def)

lemma timer_run_Cons: "timer_run (op # ops) t = timer_run ops (timer_apply op t)"
  by (simp add: timer_run_def)

lemma caller_run_append:
  "caller_run c t (ops @ ops')
     = (case caller_run c t ops of
          None \<Rightarrow> None
        | Some c1 \<Rightarrow> caller_run c1 (timer_run ops t) ops')"
  by (induction ops arbitrary: c t) (simp_all add: timer_run_def split: option.splits)

lemma caller_inv_run:
  assumes "caller_inv c t" "caller_run c t ops = Some c1"
  shows "caller_inv c1 (timer_run ops t)"
  using assms
proof (induction ops arbitrary: c t)
  case Nil
  then show ?case by (simp add: timer_run_def)
next
  case (Cons op ops)
  from Cons.prems(2) obtain c2 where
    step: "caller_step c t op = Some c2" and rest: "caller_run c2 (timer_apply op t) ops = Some c1"
    by (auto split: option.splits)
  from Cons.IH [OF caller_inv_step [OF Cons.prems(1) step] rest]
  show ?case by (simp add: timer_run_Cons)
qed





subsection \<open>The game's use of the countdown\<close>

text \<open>
  The calls that \<open>game_ask_question\<close> makes, and the steps of the thread in between, are
  a use of the countdown in the sense above: so are those of a whole session.
\<close>

lemma caller_run_thread_steps: "caller_run c t (replicate n ThreadStep) = Some c"
  by (induction n arbitrary: t) simp_all

lemma thread_run_steps: "\<exists>n. thread_run t = timer_run (replicate n ThreadStep) t"
proof (induction t rule: thread_run.induct)
  case (1 t)
  show ?case
  proof (cases "thread t = NoThread")
    case True
    then have "thread_run t = timer_run (replicate 0 ThreadStep) t"
      by (simp add: timer_run_def thread_run_ended)
    then show ?thesis ..
  next
    case False
    from "1.IH" [OF False] obtain n where
      "thread_run (thread_step t) = timer_run (replicate n ThreadStep) (thread_step t)" ..
    then have "thread_run t = timer_run (replicate (Suc n) ThreadStep) t"
      unfolding thread_run_alive [OF False] by (simp add: timer_run_def)
    then show ?thesis ..
  qed
qed

lemma thread_run_counts_down:
  "caller_inv Polling t \<Longrightarrow> remaining (thread_run t) = 0"
proof (induction t rule: thread_run.induct)
  case (1 t)
  show ?case
  proof (cases "thread t = NoThread")
    case True
    with "1.prems" show ?thesis by (simp add: thread_run_ended)
  next
    case False
    have "caller_inv Polling (timer_apply ThreadStep t)"
      using "1.prems" by (rule caller_inv_step) simp
    then have "caller_inv Polling (thread_step t)" by simp
    from "1.IH" [OF False this] show ?thesis unfolding thread_run_alive [OF False] .
  qed
qed

lemma poll_input_Poll_timer:
  "(\<not> timer_get_remaining t > 0 \<and> fst (snd (poll_input t (Poll sel # es))) = t)
   \<or> fst (snd (poll_input t (Poll sel # es))) = timer_stop t
   \<or> fst (snd (poll_input t (Poll sel # es))) = fst (snd (poll_input t es))"
  by (auto simp: with_output_def Let_def split: option.splits sum.splits prod.splits)

lemma poll_input_protocol:
  assumes "caller_inv Polling t"
  shows "\<exists>ops c1. fst (snd (poll_input t es)) = timer_run ops t
     \<and> caller_run Polling t ops = Some c1
     \<and> (c1 = Idle \<or> c1 = Polling \<and> remaining (timer_run ops t) \<le> 0)"
  using assms
proof (induction es arbitrary: t)
  case Nil
  obtain n where n: "thread_run t = timer_run (replicate n ThreadStep) t"
    using thread_run_steps by blast
  from thread_run_counts_down [OF Nil] n
  have "fst (snd (poll_input t [])) = timer_run (replicate n ThreadStep) t
     \<and> caller_run Polling t (replicate n ThreadStep) = Some Polling
     \<and> (Polling = Idle \<or> Polling = Polling \<and> remaining (timer_run (replicate n ThreadStep) t) \<le> 0)"
    by (simp add: caller_run_thread_steps)
  then show ?case by blast
next
  case (Cons e es)
  show ?case
  proof (cases e)
    case Tick
    have "caller_inv Polling (timer_apply ThreadStep t)"
      using Cons.prems by (rule caller_inv_step) simp
    from Cons.IH [OF this] obtain ops c1 where
      "fst (snd (poll_input (thread_step t) es)) = timer_run ops (thread_step t)"
      "caller_run Polling (thread_step t) ops = Some c1"
      "c1 = Idle \<or> c1 = Polling \<and> remaining (timer_run ops (thread_step t)) \<le> 0"
      by auto
    with Tick have "fst (snd (poll_input t (e # es))) = timer_run (ThreadStep # ops) t
       \<and> caller_run Polling t (ThreadStep # ops) = Some c1
       \<and> (c1 = Idle \<or> c1 = Polling \<and> remaining (timer_run (ThreadStep # ops) t) \<le> 0)"
      by (simp add: timer_run_Cons)
    then show ?thesis by blast
  next
    case (OrphanTick i)
    have "caller_inv Polling (timer_apply (OrphanStep i) t)"
      using Cons.prems by (rule caller_inv_step) simp
    from Cons.IH [OF this] obtain ops c1 where
      "fst (snd (poll_input (orphan_step i t) es)) = timer_run ops (orphan_step i t)"
      "caller_run Polling (orphan_step i t) ops = Some c1"
      "c1 = Idle \<or> c1 = Polling \<and> remaining (timer_run ops (orphan_step i t)) \<le> 0"
      by auto
    with OrphanTick have "fst (snd (poll_input t (e # es))) = timer_run (OrphanStep i # ops) t
       \<and> caller_run Polling t (OrphanStep i # ops) = Some c1
       \<and> (c1 = Idle \<or> c1 = Polling \<and> remaining (timer_run (OrphanStep i # ops) t) \<le> 0)"
      by (simp add: timer_run_Cons)
    then show ?thesis by blast
  next
    case (Poll sel)
    from poll_input_Poll_timer [of t sel es]
    consider "\<not> timer_get_remaining t > 0" "fst (snd (poll_input t (Poll sel # es))) = t"
      | "fst (snd (poll_input t (Poll sel # es))) = timer_stop t"
      | "fst (snd (poll_input t (Poll sel # es))) = fst (snd (poll_input t es))"
      by blast
    then show ?thesis
    proof cases
      case 1
      with Poll have "fst (snd (poll_input t (e # es))) = timer_run [] t
         \<and> caller_run Polling t [] = Some Polling
         \<and> (Polling = Idle \<or> Polling = Polling \<and> remaining (timer_run [] t) \<le> 0)"
        by (simp add: timer_run_def timer_get_remaining_def)
      then show ?thesis by blast
    next
      case 2
      with Poll have "fst (snd (poll_input t (e # es))) = timer_run [TimerStop] t
         \<and> caller_run Polling t [TimerStop] = Some Idle
         \<and> (Idle = Idle \<or> Idle = Polling \<and> remaining (timer_run [TimerStop] t) \<le> 0)"
        by (simp add: timer_run_def)
      then show ?thesis by blast
    next
      case 3
      with Cons.IH [OF Cons.prems] Poll show ?thesis by simp
    qed
  qed
qed

lemma game_ask_question_protocol:
  assumes "use_timer (config state)" "0 < time_per_question (config state)"
    and "caller_inv c (timer state)" "c = Idle \<or> c = Polling \<and> remaining (timer state) \<le> 0"
  shows "\<exists>ops c1. timer (fst (snd (game_ask_question state question env)))
         = timer_run ops (timer state)
     \<and> caller_run c (timer state) ops = Some c1
     \<and> (c1 = Idle \<or> c1 = Polling \<and> remaining (timer_run ops (timer state)) \<le> 0)"
proof -
  let ?secs = "time_per_question (config state)"
  let ?t1 = "timer_apply (TimerReset ?secs) (timer state)"
  let ?t2 = "timer_apply TimerStart ?t1"
  from assms(2,4) have s1: "caller_step c (timer state) (TimerReset ?secs) = Some Armed"
    by auto
  have s2: "caller_step Armed ?t1 TimerStart = Some Polling" by simp
  have "caller_inv Polling ?t2"
    using caller_inv_step [OF assms(3) s1] s2 by (rule caller_inv_step)
  from poll_input_protocol [OF this, of "events env"] obtain ops c1 where
    p: "fst (snd (poll_input ?t2 (events env))) = timer_run ops ?t2"
      "caller_run Polling ?t2 ops = Some c1"
      "c1 = Idle \<or> c1 = Polling \<and> remaining (timer_run ops ?t2) \<le> 0"
    by auto
  have t2: "?t2 = timer_at_start state" by (simp add: timer_at_start_def)
  have "timer (fst (snd (game_ask_question state question env)))
      = fst (snd (poll_input ?t2 (events env)))"
    using assms(1) unfolding t2 by (simp add: game_ask_question_timed split: prod.splits)
  with p s1 have
    "timer (fst (snd (game_ask_question state question env)))
         = timer_run (TimerReset ?secs # TimerStart # ops) (timer state)
     \<and> caller_run c (timer state) (TimerReset ?secs # TimerStart # ops) = Some c1
     \<and> (c1 = Idle \<or> c1 = Polling
          \<and> remaining (timer_run (TimerReset ?secs # TimerStart # ops) (timer state)) \<le> 0)"
    by (simp add: timer_run_Cons)
  then show ?thesis by blast
qed

lemma game_rounds_protocol:
  assumes "game_rounds n i env state = (state', out)"
  shows "use_timer (config state) \<and> 0 < time_per_question (config state)
     \<and> caller_inv c (timer state) \<and> (c = Idle \<or> c = Polling \<and> remaining (timer state) \<le> 0)
     \<longrightarrow> (\<exists>ops c1. timer state' = timer_run ops (timer state)
            \<and> caller_run c (timer state) ops = Some c1
            \<and> (c1 = Idle \<or> c1 = Polling \<and> remaining (timer state') \<le> 0))"
  using assms
proof (induction arbitrary: c rule: game_rounds_induct)
  case (Done i state)
  have "timer state = timer_run [] (timer state)" "caller_run c (timer state) [] = Some c"
    by (simp_all add: timer_run_def)
  then show ?case by blast
next
  case (NoQuestion i state)
  have "timer state = timer_run [] (timer state)" "caller_run c (timer state) [] = Some c"
    by (simp_all add: timer_run_def)
  then show ?case by blast
next
  case (Quit i state question state1 out1)
  show ?case
  proof
    assume a: "use_timer (config state) \<and> 0 < time_per_question (config state)
     \<and> caller_inv c (timer state) \<and> (c = Idle \<or> c = Polling \<and> remaining (timer state) \<le> 0)"
    then obtain ops c1 where
      "timer (fst (snd (game_ask_question state question (env i)))) = timer_run ops (timer state)"
      "caller_run c (timer state) ops = Some c1"
      "c1 = Idle \<or> c1 = Polling \<and> remaining (timer_run ops (timer state)) \<le> 0"
      using game_ask_question_protocol [of state c question "env i"] by blast
    with Quit(2) have "timer state1 = timer_run ops (timer state)
       \<and> caller_run c (timer state) ops = Some c1
       \<and> (c1 = Idle \<or> c1 = Polling \<and> remaining (timer state1) \<le> 0)"
      by simp
    then show "\<exists>ops c1. timer state1 = timer_run ops (timer state)
            \<and> caller_run c (timer state) ops = Some c1
            \<and> (c1 = Idle \<or> c1 = Polling \<and> remaining (timer state1) \<le> 0)"
      by blast
  qed
next
  case (Round i state question a state1 out1 state2 out2 state4 out4)
  let ?s3 = "if num_players (config state2) > 1 then game_next_player state2 else state2"
  have t3: "timer ?s3 = timer state1"
    using update_stats_frame(4) [OF Round(4)] by (simp add: game_next_player_frame)
  have c3: "config ?s3 = config state"
    using update_stats_frame(1) [OF Round(4)] game_ask_question_frame(1) [OF Round(2)]
    by (simp add: game_next_player_frame)
  show ?case
  proof
    assume a: "use_timer (config state) \<and> 0 < time_per_question (config state)
     \<and> caller_inv c (timer state) \<and> (c = Idle \<or> c = Polling \<and> remaining (timer state) \<le> 0)"
    then obtain ops c1 where
      "timer (fst (snd (game_ask_question state question (env i)))) = timer_run ops (timer state)"
      and r1: "caller_run c (timer state) ops = Some c1"
      and "c1 = Idle \<or> c1 = Polling \<and> remaining (timer_run ops (timer state)) \<le> 0"
      using game_ask_question_protocol [of state c question "env i"] by blast
    with Round(2) have t1: "timer state1 = timer_run ops (timer state)"
      and b1: "c1 = Idle \<or> c1 = Polling \<and> remaining (timer state1) \<le> 0"
      by simp_all
    from a have "caller_inv c (timer state)" by blast
    from caller_inv_run [OF this r1] t1 have "caller_inv c1 (timer state1)" by simp
    with a b1 t3 c3 Round.IH [of c1] obtain ops2 c2 where
      t4: "timer state4 = timer_run ops2 (timer state1)"
      and r2: "caller_run c1 (timer state1) ops2 = Some c2"
      and b2: "c2 = Idle \<or> c2 = Polling \<and> remaining (timer state4) \<le> 0"
      by auto
    from t1 t4 r1 r2 have "timer state4 = timer_run (ops @ ops2) (timer state)
       \<and> caller_run c (timer state) (ops @ ops2) = Some c2"
      by (simp add: timer_run_append caller_run_append)
    with b2 show "\<exists>ops c1. timer state4 = timer_run ops (timer state)
            \<and> caller_run c (timer state) ops = Some c1
            \<and> (c1 = Idle \<or> c1 = Polling \<and> remaining (timer state4) \<le> 0)"
      by blast
  qed
qed

text \<open>
  A timed session begins with the timer as \<open>timer_init\<close> leaves it, and the timer it
  ends with is reached from there by a use of the kind above.
\<close>

lemma game_run_protocol:
  assumes "game_init bank cfg = Some state" "use_timer cfg"
  shows "timer_init (time_per_question cfg) = Some (timer state)
     \<and> (\<exists>ops c. timer (fst (snd (game_run state env))) = timer_run ops (timer state)
          \<and> caller_run Idle (timer state) ops = Some c)"
proof -
  from assms have init: "timer_init (time_per_question cfg) = Some (timer state)"
    by (auto simp: game_init_def game_init_players_def Let_def split: if_splits option.splits)
  then have pos: "0 < time_per_question cfg" by (auto simp: timer_init_def split: if_splits)
  note cfg = game_init_state(1) [OF assms(1)]
  obtain state1 out1 where
    r: "game_rounds (nat (if num_players (config state) > 1
                       then questions_per_game (config state) * num_players (config state)
                       else questions_per_game (config state))) 0 env
       (state\<lparr>game_active := True\<rparr>) = (state1, out1)" and
    g: "game_run state env
       = (score (stats state1), state1\<lparr>game_active := False\<rparr>,
          [OutWelcome] @ out1 @ [OutReport (game_display_stats (state1\<lparr>game_active := False\<rparr>))])"
    by (rule game_run_parts)
  from game_rounds_protocol [OF r, of Idle] caller_inv_init [OF init] assms(2) pos cfg
  obtain ops c1 where "timer state1 = timer_run ops (timer state)"
    "caller_run Idle (timer state) ops = Some c1"
    by auto
  with g init show ?thesis by auto
qed

subsection \<open>Outside the game's use\<close>

text \<open>
  Neither of the following sequences of calls is made by the game. \<open>timer_start\<close> on a
  timer that has run out, without a reset: the new thread clears \<open>expired\<close> and reloads
  \<open>remaining\<close> in its first step. Two calls of \<open>timer_start\<close> before the first thread has
  taken its first step: \<open>running\<close> is still false, so the second call is not refused,
  two threads count the same timer down, and \<open>remaining\<close> reaches -1.
\<close>

lemma timer_start_without_reset:
  "caller_run Idle two_second_timer (count_down_two @ [TimerStart, ThreadStep]) = None
   \<and> expired (timer_run count_down_two two_second_timer)
   \<and> \<not> expired (timer_run (count_down_two @ [TimerStart, ThreadStep]) two_second_timer)
   \<and> remaining (timer_run (count_down_two @ [TimerStart, ThreadStep]) two_second_timer) = 2"
  by code_simp

lemma timer_start_twice:
  "caller_run Idle (the (timer_init 1)) [TimerStart, TimerStart] = None
   \<and> fst (timer_start (snd (timer_start (the (timer_init 1))))) = 0
   \<and> orphans (timer_run [TimerStart, TimerStart] (the (timer_init 1))) = [Created]
   \<and> remaining (timer_run [TimerStart, TimerStart, ThreadStep, OrphanStep 0, ThreadStep,
        OrphanStep 0, ThreadStep, OrphanStep 0] (the (timer_init 1))) = - 1"
  by code_simp

section \<open>A round without further input\<close>

text \<open>
  When no event is left, the polling loop is given the value 0. That is the value the
  C loop returns once the countdown has run out, and the countdown does run out: the
  thread that \<open>timer_start\<close> has created is alive until \<open>remaining\<close> is 0, and a thread
  that is not stopped ends with \<open>remaining = 0\<close>, which ends the loop.
\<close>

lemma timer_at_start_polling:
  assumes "caller_inv c (timer state)" "c = Idle \<or> c = Polling \<and> remaining (timer state) \<le> 0"
    and "0 < time_per_question (config state)"
  shows "caller_inv Polling (timer_at_start state)"
    "remaining (timer_at_start state) = time_per_question (config state)"
proof -
  let ?secs = "time_per_question (config state)"
  let ?t1 = "timer_apply (TimerReset ?secs) (timer state)"
  from assms(2,3) have s1: "caller_step c (timer state) (TimerReset ?secs) = Some Armed"
    by auto
  note armed = caller_inv_step [OF assms(1) s1]
  have t2: "timer_at_start state = timer_apply TimerStart ?t1" by (simp add: timer_at_start_def)
  show "caller_inv Polling (timer_at_start state)"
    unfolding t2 using armed by (rule caller_inv_step) simp
  from assms(1,2) have "thread (timer state) = NoThread \<or> running (timer state)"
    by (cases "thread (timer state)") (auto simp: timer_inv_def)
  from timer_inv_reset(2) [OF caller_inv_timer_inv [OF assms(1)] assms(3) this]
    caller_inv_start(3) [of ?t1] armed
  show "remaining (timer_at_start state) = time_per_question (config state)"
    unfolding t2 by simp
qed

lemma countdown_after_polling:
  assumes "caller_inv Polling t"
  shows "caller_inv Polling (countdown_after es t)"
  using assms
proof (induction es t rule: countdown_after.induct)
  case (2 es t)
  have "caller_inv Polling (timer_apply ThreadStep t)"
    using "2.prems" by (rule caller_inv_step) simp
  with "2.IH" show ?case by simp
next
  case (3 i es t)
  have "caller_inv Polling (timer_apply (OrphanStep i) t)"
    using "3.prems" by (rule caller_inv_step) simp
  with "3.IH" show ?case by simp
qed simp_all

lemma poll_input_runs_out:
  assumes "caller_inv Polling t"
  shows "fst (poll_input (countdown_after es t) []) = 0"
    "remaining (fst (snd (poll_input (countdown_after es t) []))) = 0"
  using thread_run_counts_down [OF countdown_after_polling [OF assms, of es]]
  by simp_all

section \<open>The difficulty of a record\<close>

lemma strchr_skip: "c \<notin> set a \<Longrightarrow> strchr (a @ c # rest) c = Some (c # rest)"
  by (induction a) auto

lemma strchr_skip_all: "c \<notin> set pre \<Longrightarrow> strchr (pre @ rest) c = strchr rest c"
  by (induction pre) auto

lemma strchr_found:
  "strchr s c = Some r \<Longrightarrow> \<exists>a rest. s = a @ c # rest \<and> c \<notin> set a \<and> r = c # rest"
proof (induction s)
  case Nil
  then show ?case by simp
next
  case (Cons x s)
  show ?case
  proof (cases "x = c")
    case True
    with Cons.prems have "x # s = [] @ c # s \<and> c \<notin> set [] \<and> r = c # s" by simp
    then show ?thesis by blast
  next
    case False
    with Cons obtain a rest where "s = a @ c # rest" "c \<notin> set a" "r = c # rest" by auto
    with False have "x # s = (x # a) @ c # rest \<and> c \<notin> set (x # a) \<and> r = c # rest" by simp
    then show ?thesis by blast
  qed
qed

lemma strstr_here: "needle \<noteq> [] \<Longrightarrow> strstr (needle @ rest) needle = Some (needle @ rest)"
  by (cases needle) simp_all

lemma strstr_short: "length s < length needle \<Longrightarrow> strstr s needle = None"
  by (induction s) auto

lemma strstr_skip:
  "needle \<noteq> [] \<Longrightarrow> hd needle \<notin> set pre \<Longrightarrow> strstr (pre @ rest) needle = strstr rest needle"
proof (induction pre)
  case Nil
  then show ?case by simp
next
  case (Cons x pre)
  then have "take (length needle) (x # pre @ rest) \<noteq> needle"
    by (cases needle) auto
  with Cons show ?case by simp
qed

text \<open>
  Whether the needle stands at the head of a text is decided by as many characters as
  the needle has.
\<close>

lemma take_needle:
  assumes "needle \<noteq> []"
  shows "take (length needle) (x # pre @ needle @ rest)
     = take (length needle) (x # pre @ butlast needle)"
proof -
  let ?n = "length needle"
  have split: "needle = butlast needle @ [last needle]" using assms by simp
  have len: "?n \<le> length (x # pre @ butlast needle)" by simp
  have "x # pre @ needle @ rest = (x # pre @ butlast needle) @ (last needle # rest)"
    using split by (metis append_Cons append_assoc append_Nil)
  then show ?thesis
    using len by (metis take_append diff_is_0_eq take_0 append_Nil2)
qed

lemma strstr_first:
  assumes "needle \<noteq> []" "strstr (pre @ butlast needle) needle = None"
  shows "strstr (pre @ needle @ rest) needle = Some (needle @ rest)"
  using assms(2)
proof (induction pre)
  case Nil
  from strstr_here [OF assms(1)] show ?case by simp
next
  case (Cons x pre)
  let ?n = "length needle"
  note same = take_needle [OF assms(1), of x pre rest]
  from Cons.prems have no: "take ?n (x # pre @ butlast needle) \<noteq> needle"
    and rest: "strstr (pre @ butlast needle) needle = None"
    by (simp_all split: if_splits)
  from Cons.IH [OF rest] no same show ?case by simp
qed

lemma strstr_found:
  assumes "needle \<noteq> []" "strstr s needle = Some r"
  shows "\<exists>pre rest. s = pre @ needle @ rest \<and> r = needle @ rest
     \<and> strstr (pre @ butlast needle) needle = None"
  using assms(2)
proof (induction s)
  case Nil
  with assms(1) show ?case by simp
next
  case (Cons x s)
  let ?n = "length needle"
  show ?case
  proof (cases "take ?n (x # s) = needle")
    case True
    with Cons.prems have r: "r = x # s" by simp
    have "x # s = take ?n (x # s) @ drop ?n (x # s)" by (simp only: append_take_drop_id)
    with True have s: "x # s = [] @ needle @ drop ?n (x # s)" by simp
    have "strstr ([] @ butlast needle) needle = None"
      using assms(1) by (intro strstr_short) simp
    with s r True show ?thesis by (metis append_Nil)
  next
    case False
    with Cons.prems have "strstr s needle = Some r" by simp
    from Cons.IH [OF this] obtain pre rest where
      s: "s = pre @ needle @ rest" and r: "r = needle @ rest"
      and first: "strstr (pre @ butlast needle) needle = None"
      by blast
    from False s take_needle [OF assms(1), of x pre rest]
    have "take ?n (x # pre @ butlast needle) \<noteq> needle" by simp
    with first have "strstr ((x # pre) @ butlast needle) needle = None" by simp
    with s r have "x # s = (x # pre) @ needle @ rest \<and> r = needle @ rest
       \<and> strstr ((x # pre) @ butlast needle) needle = None"
      by simp
    then show ?thesis by blast
  qed
qed

lemma parse_json_question_difficulty:
  assumes "parse_json_question json = Some q"
  shows "q_difficulty q = parse_difficulty (take 1023 (c_str json))"
  using assms
  by (auto simp: parse_json_question_def Let_def split: option.splits if_splits)

lemma difficulty_key_props: "difficulty_key \<noteq> []" "CHR '':'' \<notin> set difficulty_key"
  by (simp_all add: difficulty_key_def dquote_def)

lemma parse_difficulty_absent:
  "strstr line difficulty_key = None \<Longrightarrow> parse_difficulty line = DIFFICULTY_EASY"
  unfolding parse_difficulty_def difficulty_key_def [symmetric] by simp

lemma parse_difficulty_present:
  assumes "line = pre @ difficulty_key @ a @ CHR '':'' # b @ dquote # v"
    and "strstr (pre @ butlast difficulty_key) difficulty_key = None"
    and "CHR '':'' \<notin> set a" "dquote \<notin> set b"
  shows "parse_difficulty line
     = (if take 4 v = ''easy'' then DIFFICULTY_EASY
        else if take 6 v = ''medium'' then DIFFICULTY_MEDIUM
        else if take 4 v = ''hard'' then DIFFICULTY_HARD
        else DIFFICULTY_EASY)"
proof -
  let ?d1 = "difficulty_key @ a @ CHR '':'' # b @ dquote # v"
  have d1: "strstr line difficulty_key = Some ?d1"
    unfolding assms(1) using difficulty_key_props(1) assms(2) by (rule strstr_first)
  have "CHR '':'' \<notin> set (difficulty_key @ a)" using difficulty_key_props(2) assms(3) by simp
  then have "strchr ((difficulty_key @ a) @ CHR '':'' # b @ dquote # v) CHR '':''
      = Some (CHR '':'' # b @ dquote # v)"
    by (rule strchr_skip)
  then have d2: "strchr ?d1 CHR '':'' = Some (CHR '':'' # b @ dquote # v)" by simp
  have "dquote \<notin> set (CHR '':'' # b)" using assms(4) by (simp add: dquote_def)
  then have "strchr ((CHR '':'' # b) @ dquote # v) dquote = Some (dquote # v)"
    by (rule strchr_skip)
  then have d3: "strchr (CHR '':'' # b @ dquote # v) dquote = Some (dquote # v)" by simp
  have "parse_difficulty line
      = (let diff_start = tl (dquote # v)
         in if strncmp_eq diff_start ''easy'' 4 then DIFFICULTY_EASY
            else if strncmp_eq diff_start ''medium'' 6 then DIFFICULTY_MEDIUM
            else if strncmp_eq diff_start ''hard'' 4 then DIFFICULTY_HARD
            else DIFFICULTY_EASY)"
    unfolding parse_difficulty_def difficulty_key_def [symmetric] d1 option.case d2 d3 ..
  then show ?thesis by (simp add: strncmp_eq_def)
qed

text \<open>
  A difficulty other than Easy is read from a value: the quoted key occurs, a colon
  follows its first occurrence, and a double quote follows the colon.
\<close>

lemma parse_difficulty_located:
  assumes "parse_difficulty line \<noteq> DIFFICULTY_EASY"
  shows "\<exists>pre a b v. line = pre @ difficulty_key @ a @ CHR '':'' # b @ dquote # v
     \<and> strstr (pre @ butlast difficulty_key) difficulty_key = None
     \<and> CHR '':'' \<notin> set a \<and> dquote \<notin> set b"
proof -
  from assms obtain d1 d2 d3 where
    d1: "strstr line difficulty_key = Some d1" and d2: "strchr d1 CHR '':'' = Some d2"
    and d3: "strchr d2 dquote = Some d3"
    unfolding parse_difficulty_def difficulty_key_def [symmetric]
    by (auto split: option.splits)
  from strstr_found [OF difficulty_key_props(1) d1] obtain pre rest where
    line: "line = pre @ difficulty_key @ rest" and r1: "d1 = difficulty_key @ rest"
    and first: "strstr (pre @ butlast difficulty_key) difficulty_key = None"
    by blast
  from d2 r1 have "strchr rest CHR '':'' = Some d2"
    by (simp add: strchr_skip_all [OF difficulty_key_props(2)])
  from strchr_found [OF this] obtain a rest2 where
    rest: "rest = a @ CHR '':'' # rest2" and a: "CHR '':'' \<notin> set a"
    and r2: "d2 = CHR '':'' # rest2"
    by blast
  from d3 r2 have "strchr rest2 dquote = Some d3" by (simp add: dquote_def)
  from strchr_found [OF this] obtain b v where
    rest2: "rest2 = b @ dquote # v" and b: "dquote \<notin> set b"
    by blast
  from line rest rest2 first a b
  have "line = pre @ difficulty_key @ a @ CHR '':'' # b @ dquote # v
     \<and> strstr (pre @ butlast difficulty_key) difficulty_key = None
     \<and> CHR '':'' \<notin> set a \<and> dquote \<notin> set b"
    by simp
  then show ?thesis by blast
qed

text \<open>
  Claim C7, as the code has it. The difficulty of a parsed record is read from the
  first 1023 bytes of the record, as the text that follows the first double quote after
  the first colon after the first occurrence of the quoted key \<open>"difficulty"\<close>,
  wherever that occurrence stands. It is Medium when this text begins with \<open>medium\<close>
  and Hard when it begins with \<open>hard\<close>, compared case-sensitively on the first 6 and 4
  characters; for every other text it is Easy, and so it is when the key is absent;
  and it is Easy whenever there is no such key, colon or quote.
\<close>

theorem difficulty_of_record:
  assumes "parse_json_question json = Some q"
  shows "(strstr (take 1023 (c_str json)) difficulty_key = None \<longrightarrow>
          q_difficulty q = DIFFICULTY_EASY)
     \<and> (take 1023 (c_str json) = pre @ difficulty_key @ a @ CHR '':'' # b @ dquote # v
         \<and> strstr (pre @ butlast difficulty_key) difficulty_key = None
         \<and> CHR '':'' \<notin> set a \<and> dquote \<notin> set b \<longrightarrow>
          q_difficulty q
            = (if take 4 v = ''easy'' then DIFFICULTY_EASY
               else if take 6 v = ''medium'' then DIFFICULTY_MEDIUM
               else if take 4 v = ''hard'' then DIFFICULTY_HARD
               else DIFFICULTY_EASY))
     \<and> (q_difficulty q \<noteq> DIFFICULTY_EASY \<longrightarrow>
          (\<exists>pre a b v.
             take 1023 (c_str json) = pre @ difficulty_key @ a @ CHR '':'' # b @ dquote # v
             \<and> strstr (pre @ butlast difficulty_key) difficulty_key = None
             \<and> CHR '':'' \<notin> set a \<and> dquote \<notin> set b))"
  using parse_json_question_difficulty [OF assms] parse_difficulty_absent
    parse_difficulty_present [of "take 1023 (c_str json)" pre a b v]
    parse_difficulty_located [of "take 1023 (c_str json)"]
  by simp

theorem difficulty_of_record_witness:
  "parse_json_question medium_record = Some (parsed_record DIFFICULTY_MEDIUM)
   \<and> take 1023 (c_str medium_record)
       = record_prefix @ difficulty_key @ [] @ CHR '':'' # '' '' @ dquote # (''medium'' @ dquote # ''}'')
   \<and> strstr (record_prefix @ butlast difficulty_key) difficulty_key = None
   \<and> q_difficulty (parsed_record DIFFICULTY_MEDIUM) = DIFFICULTY_MEDIUM
   \<and> parse_json_question plain_record = Some (parsed_record DIFFICULTY_EASY)
   \<and> strstr (take 1023 (c_str plain_record)) difficulty_key = None
   \<and> q_difficulty (parsed_record DIFFICULTY_EASY) = DIFFICULTY_EASY"
proof -
  have p: "parse_json_question medium_record = Some (parsed_record DIFFICULTY_MEDIUM)"
    by code_simp
  have shape: "take 1023 (c_str medium_record)
       = record_prefix @ difficulty_key @ [] @ CHR '':'' # '' '' @ dquote # (''medium'' @ dquote # ''}'')"
    by code_simp
  have first: "strstr (record_prefix @ butlast difficulty_key) difficulty_key = None"
    by code_simp
  have a: "CHR '':'' \<notin> set []" by simp
  have b: "dquote \<notin> set '' ''" by (simp add: dquote_def)
  from difficulty_of_record [OF p, of record_prefix "[]" "'' ''" "''medium'' @ dquote # ''}''"]
    shape first a b
  have m: "q_difficulty (parsed_record DIFFICULTY_MEDIUM) = DIFFICULTY_MEDIUM" by simp
  have p': "parse_json_question plain_record = Some (parsed_record DIFFICULTY_EASY)"
    by code_simp
  have absent: "strstr (take 1023 (c_str plain_record)) difficulty_key = None" by code_simp
  from difficulty_of_record [OF p'] absent
  have e: "q_difficulty (parsed_record DIFFICULTY_EASY) = DIFFICULTY_EASY" by blast
  from p shape first m p' absent e show ?thesis by blast
qed

text \<open>
  The record of 1026 bytes is evaluated with its question text kept as a whole: no
  quote, colon or bracket stands in it, so every search passes over it.
\<close>

lemma c_str_id: "CHR 0x00 \<notin> set s \<Longrightarrow> c_str s = s"
  unfolding c_str_def by (induction s) auto

lemma takeWhile_skip:
  "\<forall>x\<in>set pre. P x \<Longrightarrow> takeWhile P (pre @ rest) = pre @ takeWhile P rest"
  by (induction pre) auto

lemma long_line:
  assumes "set r \<subseteq> {CHR ''x''}" "length r = 949"
  shows \<open>take 1023 (c_str (''{"question": "'' @ (CHR ''x'' # r)
     @ ''?", "options": ["A", "B"], "correct": 1, "difficulty": "hard"}''))
   = ''{"question": "'' @ (CHR ''x'' # r)
     @ ''?", "options": ["A", "B"], "correct": 1, "difficulty": "har''\<close>
proof -
  from assms(1) have "CHR 0x00 \<notin> set r" by auto
  with assms(2) show ?thesis by (simp add: c_str_id)
qed

lemma long_parse:
  assumes "set r \<subseteq> {CHR ''x''}" "length r = 949"
  shows \<open>parse_json_question (''{"question": "'' @ (CHR ''x'' # r)
     @ ''?", "options": ["A", "B"], "correct": 1, "difficulty": "hard"}'')
    = Some \<lparr>q_question = CHR ''x'' # take 510 r, q_options = [''A'', ''B''],
        q_correct_answer = 1, q_difficulty = DIFFICULTY_EASY, q_category = CATEGORY_GENERAL\<rparr>\<close>
proof -
  from assms(1) have no: "CHR 0x22 \<notin> set r" "CHR '':'' \<notin> set r" "CHR ''['' \<notin> set r"
    "\<forall>c\<in>set r. c \<noteq> CHR 0x22"
    by auto
  show ?thesis
    unfolding parse_json_question_def long_line [OF assms] Let_def
    using no assms(2)
    by (simp add: strstr_skip strchr_skip_all takeWhile_skip dquote_def parse_difficulty_def
        strncmp_eq_def atoi_def strtol_def isspace_def isdigit_def int_of_long_def
        MAX_QUESTION_LEN_def MAX_OPTIONS_def MAX_ANSWER_LEN_def Let_def LONG_MAX_def LONG_MIN_def
        INT_MAX_def INT_MIN_def eval_nat_numeral)
qed

lemma long_record_parsed:
  "map_option q_difficulty (parse_json_question long_record) = Some DIFFICULTY_EASY"
proof -
  have "replicate 950 CHR ''x'' = CHR ''x'' # replicate 949 CHR ''x''"
    using replicate_Suc [of 949 "CHR ''x''"] by simp
  then have \<open>long_record = ''{"question": "'' @ (CHR ''x'' # replicate 949 CHR ''x'')
     @ ''?", "options": ["A", "B"], "correct": 1, "difficulty": "hard"}''\<close>
    by (simp only: long_record_def)
  moreover have "set (replicate 949 CHR ''x'') \<subseteq> {CHR ''x''}" "length (replicate 949 CHR ''x'') = 949"
    by simp_all
  ultimately show ?thesis using long_parse [of "replicate 949 CHR ''x''"] by (simp del: replicate_Suc)
qed

text \<open>
  Claim C7 as stated maps the exact strings, and only those, whatever else the record
  holds. The value \<open>hardest\<close> is none of \<open>easy\<close>, \<open>medium\<close>, \<open>hard\<close>, and the record is
  parsed as Hard, not Easy. A record with the difficulty \<open>hard\<close> and an option whose text
  is \<open>difficulty\<close> is parsed as Easy: the quoted key is found among the options, the
  next colon is that of the correct index, and the next quote opens the key of the
  difficulty field. And a record of 1026 bytes that ends with the difficulty \<open>hard\<close> is
  parsed as Easy: the value is cut after \<open>har\<close>.
\<close>

theorem difficulty_prefix_counterexample:
  "hardest_record
     = record_prefix @ difficulty_key @ CHR '':'' # '' '' @ dquote # ''hardest'' @ dquote # ''}''
   \<and> parse_json_question hardest_record = Some (parsed_record DIFFICULTY_HARD)
   \<and> q_difficulty (parsed_record DIFFICULTY_HARD) \<noteq> DIFFICULTY_EASY
   \<and> option_record
       = option_prefix @ difficulty_key @ CHR '':'' # '' '' @ dquote # ''hard'' @ dquote # ''}''
   \<and> map_option q_difficulty (parse_json_question option_record) = Some DIFFICULTY_EASY
   \<and> map_option q_options (parse_json_question option_record) = Some [''difficulty'', ''ease'']
   \<and> length long_record = 1026
   \<and> drop 1005 long_record = difficulty_key @ CHR '':'' # '' '' @ dquote # ''hard'' @ dquote # ''}''
   \<and> map_option q_difficulty (parse_json_question long_record) = Some DIFFICULTY_EASY"
proof -
  have "hardest_record
     = record_prefix @ difficulty_key @ CHR '':'' # '' '' @ dquote # ''hardest'' @ dquote # ''}''
   \<and> parse_json_question hardest_record = Some (parsed_record DIFFICULTY_HARD)
   \<and> q_difficulty (parsed_record DIFFICULTY_HARD) \<noteq> DIFFICULTY_EASY
   \<and> option_record
       = option_prefix @ difficulty_key @ CHR '':'' # '' '' @ dquote # ''hard'' @ dquote # ''}''
   \<and> map_option q_difficulty (parse_json_question option_record) = Some DIFFICULTY_EASY
   \<and> map_option q_options (parse_json_question option_record) = Some [''difficulty'', ''ease'']"
    by code_simp
  moreover have "length long_record = 1026" by (simp add: long_record_def)
  moreover have "drop 1005 long_record
      = difficulty_key @ CHR '':'' # '' '' @ dquote # ''hard'' @ dquote # ''}''"
    by (simp add: long_record_def difficulty_key_def dquote_def)
  ultimately show ?thesis using long_record_parsed by blast
qed

section \<open>Loading the question file\<close>

text \<open>
  What the loader returns is the number of questions it has added to the bank, and a
  question it adds has a correct index from 0 to below the number of options that the
  scan of the record collected, which is at most \<open>MAX_OPTIONS\<close>.
\<close>

lemma parse_options_length: "length (parse_options n s) \<le> n"
proof (induction n arbitrary: s)
  case 0
  then show ?case by simp
next
  case (Suc n)
  show ?case
  proof (cases "strchr s dquote")
    case None
    then show ?thesis by simp
  next
    case (Some b)
    show ?thesis
    proof (cases "strchr (tl b) dquote")
      case None
      with Some show ?thesis by simp
    next
      case inner: (Some opt_end)
      with Some Suc.IH [of "tl opt_end"] show ?thesis by simp
    qed
  qed
qed

lemma parse_json_question_range:
  assumes "parse_json_question json = Some q"
  shows "0 \<le> q_correct_answer q" "q_correct_answer q < int (length (q_options q))"
    "length (q_options q) \<le> MAX_OPTIONS"
  using assms parse_options_length [of MAX_OPTIONS]
  by (auto simp: parse_json_question_def Let_def split: option.splits if_splits)

lemma load_chars_count:
  "load_chars cs buffer loaded in_object brace_count bank = (n, bank') \<Longrightarrow>
   \<exists>new. bank' = bank @ new \<and> n = loaded + int (length new)"
proof (induction cs buffer loaded in_object brace_count bank rule: load_chars.induct)
  case (1 buffer loaded in_object brace_count bank)
  then show ?case by simp
next
  case (2 c cs buffer loaded in_object brace_count bank)
  show ?case
  proof (cases "length buffer \<ge> 8192 - 1")
    case True
    with 2 show ?thesis by simp
  next
    case False
    note room = this
    show ?thesis
    proof (cases "c = CHR ''{''")
      case True
      with room 2 show ?thesis by (cases in_object) simp_all
    next
      case False
      note not_open = this
      show ?thesis
      proof (cases "c = CHR ''}''")
        case False
        with room not_open 2 show ?thesis by simp
      next
        case True
        show ?thesis
        proof (cases "in_object \<and> brace_count - 1 = 0")
          case False
          with True room not_open 2 show ?thesis by auto
        next
          case closes: True
          show ?thesis
          proof (cases "parse_json_question (buffer @ [c])")
            case None
            with closes True room not_open 2 show ?thesis by simp
          next
            case (Some q)
            with closes True room not_open "2.prems"
            have "load_chars cs [] (loaded + 1) False 0 (question_bank_add bank q) = (n, bank')"
              by simp
            with "2.IH"(5) [OF room not_open True closes Some]
            obtain new where "bank' = question_bank_add bank q @ new"
              "n = loaded + 1 + int (length new)" by blast
            then have "bank' = bank @ (q # new) \<and> n = loaded + int (length (q # new))"
              by (simp add: question_bank_add_def)
            then show ?thesis by blast
          qed
        qed
      qed
    qed
  qed
qed

lemma question_bank_load_count:
  assumes "question_bank_load_from_json bank (Some content) = (n, bank')"
  shows "\<exists>new. bank' = bank @ new \<and> n = int (length new)"
  using assms load_chars_count [of content "[]" 0 False 0 bank n bank']
  by (simp add: question_bank_load_from_json_def)


lemma spread_record_parsed: "parse_json_question spread_record = Some spread_question"
  by code_simp

lemma five_record_parsed: "parse_json_question five_record = None"
  by code_simp

lemma capital_record_parsed: "parse_json_question capital_record = Some capital_question"
  by code_simp

text \<open>
  Claim C6 asks that a record whose correct index lies outside the range of its options
  is left out of the bank and out of the count the loader returns. The record of
  \<open>spread_file\<close> has the two options Yes and No and the correct index 3. The scan
  for options ends at a \<open>]\<close> only when it follows the closing quote of an option at
  once; here a line break follows, so the keys \<open>correct\<close> and \<open>difficulty\<close> are
  collected as a third and a fourth option, and the record is added and counted.
\<close>

theorem spread_file_loaded:
  "question_bank_load_from_json [] (Some spread_file) = (1, [spread_question])
   \<and> q_options spread_question = [''Yes'', ''No'', ''correct'', ''difficulty'']
   \<and> q_correct_answer spread_question = 3"
proof -
  note p = spread_record_parsed [unfolded spread_record_def text_lines_def, simplified]
  have "question_bank_load_from_json [] (Some spread_file) = (1, [spread_question])"
    by (simp add: question_bank_load_from_json_def spread_file_def spread_record_def
        text_lines_def p question_bank_add_def)
  then show ?thesis by (simp add: spread_question_def)
qed

text \<open>
  A record with four options and the correct index 5 is left out and not counted.
\<close>

lemma documented_file_loaded:
  "question_bank_load_from_json [] (Some documented_file) = (1, [capital_question])"
proof -
  note p1 = five_record_parsed [unfolded five_record_def, simplified]
  note p2 = capital_record_parsed [unfolded capital_record_def, simplified]
  show ?thesis
    by (simp add: question_bank_load_from_json_def documented_file_def five_record_def
        capital_record_def text_lines_def p1 p2 question_bank_add_def)
qed

end
